theory Spec2Isabelle
  imports Main
begin

section \<open>csv2json: the conversion engine\<close>

text \<open>
  The repository holds several generations of one converter. The current one is
  package \<open>converter\<close> (\<open>Execute\<close>, \<open>Instrument\<close>, \<open>parseColumnNames\<close>,
  \<open>buildRecords\<close>, \<open>csv2Json\<close>, \<open>getCsvReader\<close>, \<open>fieldsToRecord\<close>), called from
  \<open>cmd/root.go\<close>. The older ones are the \<open>package main\<close> programs (versions 0.1.0 to
  0.3.0), whose \<open>csv2Json\<close> has the same loop and whose \<open>getCsvReader\<close> ends the
  process on a failed read.

  Go strings are byte strings: a field, a column name and the input are \<open>string\<close>
  (a list of 8-bit characters).

  The Go standard library is not part of the repository. What the converter calls of it
  (\<open>unicode/utf8\<close>, \<open>bufio\<close>, \<open>encoding/csv\<close>, \<open>encoding/json\<close>, the loggers) is
  modelled after the library's documentation and source, each in a subsection of its own.
\<close>

subsection \<open>Errors and outcomes\<close>

text \<open>
  \<open>io.EOF\<close> is an error value in Go, so it is one here. A \<open>csv.ParseError\<close> keeps the
  line on which its record starts (\<open>StartLine\<close>) and the wrapped error (\<open>Err\<close>).
\<close>

datatype csv_err = ErrBareQuote | ErrQuote | ErrFieldCount

datatype error =
    EOF
  | ParseError nat csv_err
  | ErrInvalidUnreadRune
  | ReadError string
  | WriteError string

text \<open>
  A Go call returns, panics (here: index out of range) or ends the process
  (\<open>log.Fatal\<close> prints the error and calls \<open>os.Exit(1)\<close>).
\<close>

datatype 'a exec = Return 'a | Panic | Exit error

subsection \<open>The record builder\<close>

text \<open>\<open>type record map[string]string\<close>\<close>

type_synonym record_map = "string \<rightharpoonup> string"

text \<open>
  \<open>for i := range *colNames { k, v := (*colNames)[i], (*rowValues)[i]; rec[k] = v }\<close>:
  the index expression on \<open>rowValues\<close> is not guarded, so it panics when the row is
  shorter than the column names.
\<close>

function fieldsToRecord_loop ::
  "string list \<Rightarrow> string list \<Rightarrow> nat \<Rightarrow> record_map \<Rightarrow> record_map exec" where
  "fieldsToRecord_loop colNames rowValues i rec =
     (if i < length colNames then
        (if i < length rowValues then
           fieldsToRecord_loop colNames rowValues (i + 1)
             (rec(colNames ! i \<mapsto> rowValues ! i))
         else Panic)
      else Return rec)"
  by pat_completeness auto
termination
  by (relation "measure (\<lambda>(c, r, i, m). length c - i)") auto

definition fieldsToRecord :: "string list \<Rightarrow> string list \<Rightarrow> record_map exec" where
  "fieldsToRecord colNames rowValues = fieldsToRecord_loop colNames rowValues 0 Map.empty"

subsection \<open>The input stream, \<open>unicode/utf8\<close> and \<open>bufio.Reader\<close>\<close>

text \<open>
  The \<open>io.Reader\<close> given as \<open>CsvInput\<close>. \<open>Data s\<close> yields the bytes \<open>s\<close> and then
  \<open>io.EOF\<close>; \<open>Broken e\<close> yields no byte and answers every read with the error \<open>e\<close>
  (a closed file, a directory opened as a file). A stream that fails after it has
  delivered bytes is not modelled.
\<close>

datatype stream = Data string | Broken error

abbreviation RuneError :: nat where "RuneError \<equiv> 0xFFFD"

text \<open>
  \<open>utf8.DecodeRune\<close> of the standard library: the rune at the head of \<open>p\<close> and its width
  in bytes; \<open>(RuneError, 1)\<close> for an invalid or incomplete encoding. The bit fields that
  Go joins with \<open>|\<close> after masking and shifting do not overlap, so they are added here.
\<close>

definition DecodeRune :: "string \<Rightarrow> nat \<times> nat" where
  "DecodeRune p =
     (if p = [] then (RuneError, 0)
      else
        let p0 = (of_char (p ! 0) :: nat) in
        if p0 < 0x80 then (p0, 1)
        else if p0 < 0xC2 \<or> 0xF4 < p0 then (RuneError, 1)
        else
          let sz = (if p0 < 0xE0 then 2 else if p0 < 0xF0 then 3 else (4::nat));
              lo = (if p0 = 0xE0 then 0xA0 else if p0 = 0xF0 then 0x90 else (0x80::nat));
              hi = (if p0 = 0xED then 0x9F else if p0 = 0xF4 then 0x8F else (0xBF::nat))
          in
          if length p < sz then (RuneError, 1)
          else
            let b1 = (of_char (p ! 1) :: nat) in
            if b1 < lo \<or> hi < b1 then (RuneError, 1)
            else if sz \<le> 2 then ((p0 mod 32) * 64 + b1 mod 64, 2)
            else
              let b2 = (of_char (p ! 2) :: nat) in
              if b2 < 0x80 \<or> 0xBF < b2 then (RuneError, 1)
              else if sz \<le> 3 then ((p0 mod 16) * 4096 + (b1 mod 64) * 64 + b2 mod 64, 3)
              else
                let b3 = (of_char (p ! 3) :: nat) in
                if b3 < 0x80 \<or> 0xBF < b3 then (RuneError, 1)
                else ((p0 mod 8) * 262144 + (b1 mod 64) * 4096 + (b2 mod 64) * 64
                        + b3 mod 64, 4))"

text \<open>The UTF-8 encoding of the byte order mark \<open>U+FEFF\<close>.\<close>

abbreviation BOM :: string where "BOM \<equiv> [CHR 0xEF, CHR 0xBB, CHR 0xBF]"

text \<open>
  \<open>bufio.Reader\<close>: the stream it wraps, the read position and the width of the rune
  returned by the last \<open>ReadRune\<close> (\<open>-1\<close> when the last operation was not one).
\<close>

record bufio_Reader =
  br_rd :: stream
  br_r :: nat
  br_lastRuneSize :: int

definition bufio_NewReader :: "stream \<Rightarrow> bufio_Reader" where
  "bufio_NewReader rd = \<lparr>br_rd = rd, br_r = 0, br_lastRuneSize = - 1\<rparr>"

text \<open>The bytes not yet read.\<close>

definition unread :: "bufio_Reader \<Rightarrow> string" where
  "unread b = (case br_rd b of Data s \<Rightarrow> drop (br_r b) s | Broken e \<Rightarrow> [])"

definition ReadRune :: "bufio_Reader \<Rightarrow> (nat \<times> nat \<times> error option) \<times> bufio_Reader" where
  "ReadRune b =
     (case br_rd b of
        Broken e \<Rightarrow> ((0, 0, Some e), b\<lparr>br_lastRuneSize := - 1\<rparr>)
      | Data s \<Rightarrow>
          (if length s \<le> br_r b then ((0, 0, Some EOF), b\<lparr>br_lastRuneSize := - 1\<rparr>)
           else
             (case DecodeRune (drop (br_r b) s) of
                (r, sz) \<Rightarrow>
                  ((r, sz, None),
                   b\<lparr>br_r := br_r b + sz, br_lastRuneSize := int sz\<rparr>))))"

definition UnreadRune :: "bufio_Reader \<Rightarrow> error option \<times> bufio_Reader" where
  "UnreadRune b =
     (if br_lastRuneSize b < 0 \<or> int (br_r b) < br_lastRuneSize b
      then (Some ErrInvalidUnreadRune, b)
      else (None, b\<lparr>br_r := br_r b - nat (br_lastRuneSize b), br_lastRuneSize := - 1\<rparr>))"

subsection \<open>\<open>encoding/csv\<close>: the reader\<close>

text \<open>
  The reader of the standard library with the settings of \<open>csv.NewReader\<close>
  (\<open>Comma = ','\<close>, no comment character, \<open>LazyQuotes\<close> and \<open>TrimLeadingSpace\<close> off).
\<close>

abbreviation LF :: char where "LF \<equiv> CHR 0x0A"
abbreviation CR :: char where "CR \<equiv> CHR 0x0D"
abbreviation quote :: char where "quote \<equiv> CHR 0x22"
abbreviation comma :: char where "comma \<equiv> CHR 0x2C"

definition lengthNL :: "string \<Rightarrow> nat" where
  "lengthNL b = (if b \<noteq> [] \<and> last b = LF then 1 else 0)"

text \<open>\<open>readLine\<close> turns a final \<open>\r\n\<close> into \<open>\n\<close> on every line it returns.\<close>

definition normalizeNL :: "string \<Rightarrow> string" where
  "normalizeNL line =
     (let n = length line in
      if 2 \<le> n \<and> line ! (n - 2) = CR \<and> line ! (n - 1) = LF
      then take (n - 2) line @ [LF] else line)"

text \<open>
  The lines that successive calls of \<open>readLine\<close> return before it reports \<open>io.EOF\<close>:
  each runs to its line feed, which it keeps; a last line without a line feed loses a
  trailing carriage return.
\<close>

fun readLines :: "string \<Rightarrow> string \<Rightarrow> string list" where
  "readLines acc [] =
     (if acc = [] then [] else [if last acc = CR then butlast acc else acc])"
| "readLines acc (c # cs) =
     (if c = LF then normalizeNL (acc @ [LF]) # readLines [] cs
      else readLines (acc @ [c]) cs)"

text \<open>
  The field loop of \<open>readRecord\<close> (label \<open>parseField\<close>). \<open>line\<close> is what is left of the
  current line, \<open>ls\<close> the lines not yet read, \<open>n\<close> the reader's \<open>numLine\<close>, \<open>dst\<close> the
  fields completed so far; \<open>quotedField\<close> is the inner loop of a field that opened with
  a quote, \<open>buf\<close> the text of that field so far. The result is the fields, the error,
  \<open>numLine\<close> and the lines left.
\<close>

function parseField ::
    "string \<Rightarrow> string list \<Rightarrow> nat \<Rightarrow> string list
      \<Rightarrow> string list \<times> csv_err option \<times> nat \<times> string list"
  and quotedField ::
    "string \<Rightarrow> string list \<Rightarrow> nat \<Rightarrow> string list \<Rightarrow> string
      \<Rightarrow> string list \<times> csv_err option \<times> nat \<times> string list"
where
  "parseField line ls n dst =
     (if line = [] \<or> hd line \<noteq> quote then
        (let pre = takeWhile (\<lambda>c. c \<noteq> comma) line;
             post = dropWhile (\<lambda>c. c \<noteq> comma) line;
             field = (if post \<noteq> [] then pre else take (length line - lengthNL line) line)
         in
         if quote \<in> set field then (dst, Some ErrBareQuote, n, ls)
         else
           (case post of
              [] \<Rightarrow> (dst @ [field], None, n, ls)
            | c # line' \<Rightarrow> parseField line' ls n (dst @ [field])))
      else quotedField (tl line) ls n dst [])"
| "quotedField line ls n dst buf =
     (case dropWhile (\<lambda>c. c \<noteq> quote) line of
        c # line' \<Rightarrow>
          (let buf' = buf @ takeWhile (\<lambda>c. c \<noteq> quote) line in
           if line' \<noteq> [] \<and> hd line' = quote then
             quotedField (tl line') ls n dst (buf' @ [quote])
           else if line' \<noteq> [] \<and> hd line' = comma then
             parseField (tl line') ls n (dst @ [buf'])
           else if lengthNL line' = length line' then (dst @ [buf'], None, n, ls)
           else (dst, Some ErrQuote, n, ls))
      | [] \<Rightarrow>
          (if line \<noteq> [] then
             (case ls of
                [] \<Rightarrow> quotedField [] [] (n + 1) dst (buf @ line)
              | l # ls' \<Rightarrow> quotedField l ls' (n + 1) dst (buf @ line))
           else (dst, Some ErrQuote, n, ls)))"
  by pat_completeness auto
termination
proof -
  have shorter: "length ys < length xs" if "dropWhile P xs = y # ys"
    for P and xs :: string and y ys
    using that length_dropWhile_le [of P xs] by simp
  show ?thesis
    by (relation "measure (\<lambda>x. case x of
          Inl (line, ls, n, dst) \<Rightarrow> length line + sum_list (map (\<lambda>l. Suc (length l)) ls)
        | Inr (line, ls, n, dst, buf) \<Rightarrow> length line + sum_list (map (\<lambda>l. Suc (length l)) ls))")
      (auto dest!: shorter sym [of "_ # _" "dropWhile _ _"] simp: neq_Nil_conv)
qed

text \<open>
  A record as \<open>readRecord\<close> parses it, before the field count is checked: the line on
  which it starts, its fields and the quoting error, if any (which \<open>Read\<close> returns as a
  \<open>ParseError\<close> of that line). Empty lines are skipped.
\<close>

type_synonym raw_record = "nat \<times> string list \<times> csv_err option"

function readRecords :: "nat \<Rightarrow> string list \<Rightarrow> raw_record list" where
  "readRecords n [] = []"
| "readRecords n (l # ls) =
     (if length l = lengthNL l then readRecords (n + 1) ls
      else
        (case parseField l ls (n + 1) [] of
           (dst, err, n', ls') \<Rightarrow>
             (n + 1, dst, err) # readRecords n' ls'))"
  by pat_completeness auto
termination
proof -
  have le:
    "length (snd (snd (snd (parseField line ls n dst)))) \<le> length ls"
    "length (snd (snd (snd (quotedField line ls n dst buf)))) \<le> length ls"
    for line ls n dst buf
  proof (induction line ls n dst and line ls n dst buf rule: parseField_quotedField.induct)
    case (1 line ls n dst)
    show ?case
      by (subst parseField.simps)
        (use 1 in \<open>auto simp del: parseField.simps quotedField.simps
                     simp add: Let_def split: list.splits\<close>)
  next
    case (2 line ls n dst buf)
    show ?case
      by (subst quotedField.simps)
        (use 2 in \<open>auto simp del: parseField.simps quotedField.simps
                     simp add: Let_def split: list.splits\<close>)
  qed
  have le': "length ls' \<le> length ls" if "parseField line ls n dst = (d, e, n', ls')"
    for line ls n dst d e n' ls'
    using le(1) [of line ls n dst] that by simp
  show ?thesis
    by (relation "measure (\<lambda>(n, ls). length ls)")
      (auto simp del: parseField.simps dest!: le' sym [of "(_, _)" "parseField _ _ _ _"])
qed

text \<open>
  \<open>csv.Reader\<close>. How a record is split into fields does not depend on
  \<open>FieldsPerRecord\<close>, so the reader holds the records still to come as parsed, and
  \<open>Read\<close> takes the next one and applies the field count to it: a positive
  \<open>FieldsPerRecord\<close> is required of every record, zero is replaced by the number of
  fields of the record just read, a negative one switches the check off. At the end of
  the input \<open>Read\<close> returns \<open>io.EOF\<close>.
\<close>

record csv_Reader =
  FieldsPerRecord :: int
  pending :: "raw_record list"

definition csv_NewReader :: "bufio_Reader \<Rightarrow> csv_Reader" where
  "csv_NewReader br =
     \<lparr>FieldsPerRecord = 0, pending = readRecords 0 (readLines [] (unread br))\<rparr>"

definition Read :: "csv_Reader \<Rightarrow> (string list \<times> error option) \<times> csv_Reader" where
  "Read rd =
     (case pending rd of
        [] \<Rightarrow> (([], Some EOF), rd)
      | (recLine, dst, perr) # rest \<Rightarrow>
          (let err = map_option (ParseError recLine) perr in
           if 0 < FieldsPerRecord rd then
             ((dst,
               if int (length dst) \<noteq> FieldsPerRecord rd \<and> err = None
               then Some (ParseError recLine ErrFieldCount) else err),
              rd\<lparr>pending := rest\<rparr>)
           else if FieldsPerRecord rd = 0 then
             ((dst, err), rd\<lparr>FieldsPerRecord := int (length dst), pending := rest\<rparr>)
           else ((dst, err), rd\<lparr>pending := rest\<rparr>)))"

text \<open>
  The error that \<open>Read\<close> returns for the record \<open>r\<close> when \<open>FieldsPerRecord\<close> is \<open>n\<close>.
\<close>

definition rowError :: "nat \<Rightarrow> raw_record \<Rightarrow> error option" where
  "rowError n r = snd (fst (Read \<lparr>FieldsPerRecord = int n, pending = [r]\<rparr>))"

subsection \<open>\<open>encoding/json\<close> and the loggers\<close>

text \<open>
  What \<open>json.NewEncoder(w).Encode(records)\<close> does to the writer: it appends one JSON
  document, an array with one object per record, or it fails with the error of a writer
  that refuses the bytes and appends nothing. The bytes of the document are the
  library's business; \<open>written w = []\<close> says that no byte has been written.
\<close>

datatype json = JsonArray "record_map list"

record Writer =
  refuses :: "error option"
  written :: "json list"

definition Encode :: "Writer \<Rightarrow> record_map list \<Rightarrow> error option \<times> Writer" where
  "Encode w records =
     (case refuses w of
        Some e \<Rightarrow> (Some e, w)
      | None \<Rightarrow> (None, w\<lparr>written := written w @ [JsonArray records]\<rparr>))"

text \<open>
  The two diagnostics of the converter: one for a skipped row, with its error, and the
  summary with the number of skipped rows. A logger is the list of its entries.
\<close>

datatype log_entry = SkippedParsingError error | SkippedLines nat

subsection \<open>Package \<open>converter\<close>\<close>

text \<open>
  \<open>Options\<close>, with the reader, the writer and the logger by their state. The three are
  taken to be present: the command line always sets them, and a \<open>nil\<close> one is not
  modelled.
\<close>

record Options =
  ColNames :: "string list"
  CsvInput :: stream
  JsonOutput :: Writer
  SkipErrors :: bool
  Logger :: "log_entry list"

text \<open>
  \<open>getCsvReader\<close>: read the first rune, return a read error other than \<open>io.EOF\<close>, put
  the rune back unless it is the byte order mark (the result of \<open>UnreadRune\<close> is not
  looked at), and hand the buffered reader to \<open>csv.NewReader\<close>.
\<close>

definition getCsvReader :: "stream \<Rightarrow> error + csv_Reader" where
  "getCsvReader r =
     (let br = bufio_NewReader r in
      case ReadRune br of
        ((firstRune, sz, err), br1) \<Rightarrow>
          (case (case err of Some e \<Rightarrow> (if e \<noteq> EOF then Some e else None) | None \<Rightarrow> None) of
             Some e \<Rightarrow> Inl e
           | None \<Rightarrow>
               (let br2 = (if firstRune \<noteq> 0xFEFF then snd (UnreadRune br1) else br1)
                in Inr (csv_NewReader br2))))"

text \<open>
  \<open>fieldsToRecord\<close> and the record type are the ones above. \<open>parseColumnNames\<close>
  returns the first row, or the error of reading it when that is not \<open>io.EOF\<close>.
\<close>

definition parseColumnNames ::
  "csv_Reader \<Rightarrow> (string list \<times> error option) \<times> csv_Reader" where
  "parseColumnNames reader =
     (case Read reader of
        ((firstRow, err), reader') \<Rightarrow>
          (if err \<noteq> None \<and> err \<noteq> Some EOF then
             (if err \<noteq> Some EOF then (([], err), reader') else ((firstRow, None), reader'))
           else ((firstRow, None), reader')))"

text \<open>
  The loop of \<open>buildRecords\<close>. \<open>rowFields, err := reader.Read()\<close> declares a new \<open>err\<close>
  in the body of the loop; the loop leaves through \<open>break\<close> with that variable set, and
  the result carries it as its third component.
\<close>

function buildRecords_loop ::
  "csv_Reader \<Rightarrow> Options \<Rightarrow> record_map list \<Rightarrow> nat
    \<Rightarrow> (record_map list \<times> nat \<times> error option \<times> Options) exec" where
  "buildRecords_loop reader opts records skipped =
     (case Read reader of
        ((rowFields, err), reader') \<Rightarrow>
          (case err of
             Some e \<Rightarrow>
               (if e = EOF then Return (records, skipped, None, opts)
                else if SkipErrors opts then
                  buildRecords_loop reader'
                    (opts\<lparr>Logger := Logger opts @ [SkippedParsingError e]\<rparr>)
                    records (skipped + 1)
                else Return (records, skipped, Some e, opts))
           | None \<Rightarrow>
               (case fieldsToRecord (ColNames opts) rowFields of
                  Return rec \<Rightarrow> buildRecords_loop reader' opts (records @ [rec]) skipped
                | Panic \<Rightarrow> Panic
                | Exit x \<Rightarrow> Exit x)))"
  by pat_completeness auto
termination
  by (relation "measure (\<lambda>(reader, opts, records, skipped). length (pending reader))")
    (auto simp: Read_def Let_def split: list.splits if_splits)

text \<open>
  \<open>buildRecords\<close> has the named results \<open>records\<close> and \<open>err\<close>. Nothing assigns to the
  named \<open>err\<close>: the loop's \<open>err\<close> is another variable, so the final bare \<open>return\<close>
  returns \<open>nil\<close> for it.
\<close>

definition buildRecords ::
  "csv_Reader \<Rightarrow> Options \<Rightarrow> ((record_map list \<times> error option) \<times> Options) exec" where
  "buildRecords reader opts =
     (let err = None in
      case buildRecords_loop reader opts [] 0 of
        Return (records, skipped, loop_err, opts1) \<Rightarrow>
          (let opts2 = (if 0 < skipped
                        then opts1\<lparr>Logger := Logger opts1 @ [SkippedLines skipped]\<rparr>
                        else opts1)
           in Return ((records, err), opts2))
      | Panic \<Rightarrow> Panic
      | Exit x \<Rightarrow> Exit x)"

text \<open>
  \<open>Instrument\<close> works on the caller's options through a pointer; the result is the
  returned error together with the options as the call leaves them (the column names,
  the writer, the logger).
\<close>

definition Instrument :: "Options \<Rightarrow> (error option \<times> Options) exec" where
  "Instrument opts =
     (case getCsvReader (CsvInput opts) of
        Inl e \<Rightarrow> Return (Some e, opts)
      | Inr reader \<Rightarrow>
          (case (if length (ColNames opts) = 0 then
                   (case parseColumnNames reader of
                      ((columnNames, err), reader1) \<Rightarrow>
                        (case err of
                           Some e \<Rightarrow> Inl e
                         | None \<Rightarrow> Inr (opts\<lparr>ColNames := columnNames\<rparr>, reader1)))
                 else Inr (opts, reader)) of
             Inl e \<Rightarrow> Return (Some e, opts)
           | Inr (opts1, reader1) \<Rightarrow>
               (let reader2 = reader1\<lparr>FieldsPerRecord := int (length (ColNames opts1))\<rparr>
                in
                case buildRecords reader2 opts1 of
                  Return ((records, err), opts2) \<Rightarrow>
                    (case err of
                       Some e \<Rightarrow> Return (Some e, opts2)
                     | None \<Rightarrow>
                         (case Encode (JsonOutput opts2) records of
                            (res, w) \<Rightarrow> Return (res, opts2\<lparr>JsonOutput := w\<rparr>)))
                | Panic \<Rightarrow> Panic
                | Exit x \<Rightarrow> Exit x)))"

text \<open>
  \<open>Execute\<close> takes its options by value and hands \<open>Instrument\<close> a pointer to its own
  copy, so the column names that \<open>Instrument\<close> stores never reach the caller: the caller's
  \<open>ColNames\<close>, \<open>CsvInput\<close> and \<open>SkipErrors\<close> are as before the call. The writer and the
  logger are references that the copy shares with the caller, so what the call wrote and
  logged is seen through them. The result is the returned error with the caller's options
  after the call.
\<close>

definition Execute :: "Options \<Rightarrow> (error option \<times> Options) exec" where
  "Execute opts =
     (let o_copy = opts in
      case Instrument o_copy of
        Return (err, o_copy1) \<Rightarrow>
          Return (err, opts\<lparr>JsonOutput := JsonOutput o_copy1, Logger := Logger o_copy1\<rparr>)
      | Panic \<Rightarrow> Panic
      | Exit x \<Rightarrow> Exit x)"

text \<open>
  \<open>csv2Json\<close>, the driver that \<open>Execute\<close> called before \<open>Instrument\<close> replaced it. Its
  diagnostics go to the standard logger of package \<open>log\<close>, passed here as \<open>lg\<close>. The
  loop returns the error of its \<open>return err\<close>, if it left that way, with the records,
  the counter and the log.
\<close>

function csv2Json_loop ::
  "csv_Reader \<Rightarrow> string list \<Rightarrow> bool \<Rightarrow> record_map list \<Rightarrow> nat \<Rightarrow> log_entry list
    \<Rightarrow> (error option \<times> record_map list \<times> nat \<times> log_entry list) exec" where
  "csv2Json_loop reader colNames skipErrors allRecords numRowsWithErrors lg =
     (case Read reader of
        ((rowFields, err), reader') \<Rightarrow>
          (case err of
             Some e \<Rightarrow>
               (if e = EOF then Return (None, allRecords, numRowsWithErrors, lg)
                else if skipErrors then
                  csv2Json_loop reader' colNames skipErrors allRecords
                    (numRowsWithErrors + 1) (lg @ [SkippedParsingError e])
                else Return (Some e, allRecords, numRowsWithErrors, lg))
           | None \<Rightarrow>
               (case fieldsToRecord colNames rowFields of
                  Return thisRecord \<Rightarrow>
                    csv2Json_loop reader' colNames skipErrors (allRecords @ [thisRecord])
                      numRowsWithErrors lg
                | Panic \<Rightarrow> Panic
                | Exit x \<Rightarrow> Exit x)))"
  by pat_completeness auto
termination
  by (relation "measure (\<lambda>(reader, colNames, skipErrors, allRecords, numRowsWithErrors, lg).
                            length (pending reader))")
    (auto simp: Read_def Let_def split: list.splits if_splits)

text \<open>
  \<open>csv2Json\<close> from the line after \<open>getCsvReader\<close>: the same text in package \<open>converter\<close>
  and in the \<open>package main\<close> programs. The deferred function, registered after the
  header has been read, writes the summary when the function returns from the loop or
  after encoding.
\<close>

definition csv2Json_body ::
  "csv_Reader \<Rightarrow> string list \<Rightarrow> bool \<Rightarrow> Writer \<Rightarrow> log_entry list
    \<Rightarrow> (error option \<times> Writer \<times> log_entry list) exec" where
  "csv2Json_body reader colNames0 skipErrors jsonOutput lg =
     (case (if length colNames0 = 0 then
              (case Read reader of
                 ((firstRow, err), reader1) \<Rightarrow>
                   (case err of
                      Some e \<Rightarrow> (if e \<noteq> EOF then Inl e else Inr (colNames0, reader1))
                    | None \<Rightarrow> Inr (firstRow, reader1)))
            else Inr (colNames0, reader\<lparr>FieldsPerRecord := int (length colNames0)\<rparr>)) of
        Inl e \<Rightarrow> Return (Some e, jsonOutput, lg)
      | Inr (colNames, reader2) \<Rightarrow>
          (case csv2Json_loop reader2 colNames skipErrors [] 0 lg of
             Return (res, allRecords, numRowsWithErrors, lg1) \<Rightarrow>
               (let lg2 = (if skipErrors \<and> 0 < numRowsWithErrors
                           then lg1 @ [SkippedLines numRowsWithErrors] else lg1)
                in
                case res of
                  Some e \<Rightarrow> Return (Some e, jsonOutput, lg2)
                | None \<Rightarrow>
                    (case Encode jsonOutput allRecords of
                       (res', w) \<Rightarrow> Return (res', w, lg2)))
           | Panic \<Rightarrow> Panic
           | Exit x \<Rightarrow> Exit x))"

definition csv2Json ::
  "Options \<Rightarrow> log_entry list \<Rightarrow> (error option \<times> Writer \<times> log_entry list) exec" where
  "csv2Json opts lg =
     (case getCsvReader (CsvInput opts) of
        Inl e \<Rightarrow> Return (Some e, JsonOutput opts, lg)
      | Inr reader \<Rightarrow>
          csv2Json_body reader (ColNames opts) (SkipErrors opts) (JsonOutput opts) lg)"

subsection \<open>The \<open>package main\<close> programs (versions 0.2.0 and 0.3.0)\<close>

record conversionOptions =
  co_colNames :: "string list"
  co_csvInput :: stream
  co_jsonOutput :: Writer
  co_skipErrors :: bool

text \<open>
  Their \<open>getCsvReader\<close> has no error result: on a read error other than \<open>io.EOF\<close> it
  calls \<open>log.Fatal(err)\<close>.
\<close>

definition getCsvReader_main :: "stream \<Rightarrow> csv_Reader exec" where
  "getCsvReader_main r =
     (let br = bufio_NewReader r in
      case ReadRune br of
        ((firstRune, sz, err), br1) \<Rightarrow>
          (case (case err of Some e \<Rightarrow> (if e \<noteq> EOF then Some e else None) | None \<Rightarrow> None) of
             Some e \<Rightarrow> Exit e
           | None \<Rightarrow>
               (let br2 = (if firstRune \<noteq> 0xFEFF then snd (UnreadRune br1) else br1)
                in Return (csv_NewReader br2))))"

definition csv2Json_main ::
  "conversionOptions \<Rightarrow> log_entry list \<Rightarrow> (error option \<times> Writer \<times> log_entry list) exec" where
  "csv2Json_main options lg =
     (case getCsvReader_main (co_csvInput options) of
        Return reader \<Rightarrow>
          csv2Json_body reader (co_colNames options) (co_skipErrors options)
            (co_jsonOutput options) lg
      | Panic \<Rightarrow> Panic
      | Exit x \<Rightarrow> Exit x)"

section \<open>Properties of the record builder\<close>

declare fieldsToRecord_loop.simps [simp del]

lemma fieldsToRecord_loop_ok:
  "i \<le> length cols \<Longrightarrow> length cols \<le> length row \<Longrightarrow>
   fieldsToRecord_loop cols row i m = Return (m(drop i cols [\<mapsto>] drop i row))"
proof (induction "length cols - i" arbitrary: i m)
  case 0
  then show ?case
    by (subst fieldsToRecord_loop.simps) simp
next
  case (Suc n)
  then have ic: "i < length cols" and ir: "i < length row" by simp_all
  have dc: "drop i cols = cols ! i # drop (Suc i) cols"
    using ic by (simp add: Cons_nth_drop_Suc)
  have dr: "drop i row = row ! i # drop (Suc i) row"
    using ir by (simp add: Cons_nth_drop_Suc)
  have n: "n = length cols - Suc i" using Suc.hyps(2) by simp
  have "fieldsToRecord_loop cols row i m =
        fieldsToRecord_loop cols row (Suc i) (m(cols ! i \<mapsto> row ! i))"
    using ic ir by (subst fieldsToRecord_loop.simps) simp
  also have "\<dots> = Return ((m(cols ! i \<mapsto> row ! i))
                      (drop (Suc i) cols [\<mapsto>] drop (Suc i) row))"
    using Suc.hyps(1) [OF n] ic Suc.prems(2) by simp
  finally show ?case by (simp add: dc dr)
qed

lemma fieldsToRecord_ok:
  "length cols \<le> length row \<Longrightarrow> fieldsToRecord cols row = Return (Map.empty(cols [\<mapsto>] row))"
  by (simp add: fieldsToRecord_def fieldsToRecord_loop_ok)

lemma fieldsToRecord_loop_short:
  "i \<le> length row \<Longrightarrow> length row < length cols \<Longrightarrow>
   fieldsToRecord_loop cols row i m = Panic"
proof (induction "length row - i" arbitrary: i m)
  case 0
  then show ?case
    by (subst fieldsToRecord_loop.simps) simp
next
  case (Suc n)
  then have ir: "i < length row" and ic: "i < length cols" by simp_all
  have n: "n = length row - Suc i" using Suc.hyps(2) by simp
  have "fieldsToRecord_loop cols row i m =
        fieldsToRecord_loop cols row (Suc i) (m(cols ! i \<mapsto> row ! i))"
    using ic ir by (subst fieldsToRecord_loop.simps) simp
  also have "\<dots> = Panic"
    using Suc.hyps(1) [OF n] ir Suc.prems(2) by simp
  finally show ?case .
qed

lemma fieldsToRecord_short:
  "length row < length cols \<Longrightarrow> fieldsToRecord cols row = Panic"
  by (simp add: fieldsToRecord_def fieldsToRecord_loop_short)

lemma map_upds_last_occurrence:
  "i < length xs \<Longrightarrow> length xs \<le> length ys \<Longrightarrow>
   (\<forall>j<length xs. i < j \<longrightarrow> xs ! j \<noteq> xs ! i) \<Longrightarrow>
   (m(xs [\<mapsto>] ys)) (xs ! i) = Some (ys ! i)"
proof (induction xs arbitrary: ys i m)
  case Nil
  then show ?case by simp
next
  case (Cons x xs)
  then obtain y ys' where ys: "ys = y # ys'" by (cases ys) auto
  show ?case
  proof (cases i)
    case 0
    have "x \<notin> set xs"
    proof
      assume "x \<in> set xs"
      then obtain k where "k < length xs" "xs ! k = x" by (auto simp: in_set_conv_nth)
      with Cons.prems(3) 0 show False by (auto dest: spec [of _ "Suc k"])
    qed
    then show ?thesis using 0 ys by simp
  next
    case (Suc k)
    have "\<forall>j<length xs. k < j \<longrightarrow> xs ! j \<noteq> xs ! k"
      using Cons.prems(3) Suc by (auto dest: spec [of _ "Suc _"])
    moreover have "k < length xs" "length xs \<le> length ys'"
      using Cons.prems Suc ys by simp_all
    ultimately have "((m(x \<mapsto> y))(xs [\<mapsto>] ys')) (xs ! k) = Some (ys' ! k)"
      by (intro Cons.IH)
    then show ?thesis unfolding Suc ys by (simp only: map_upds_Cons nth_Cons_Suc)
  qed
qed

text \<open>
  Claim C2, as the code has it. \<open>fieldsToRecord\<close> returns for every row that is at
  least as long as the column names, and then the record is the result of setting
  \<open>record[columns[i]] = row[i]\<close> for the indices \<open>i < len(columns)\<close>, in order; with no
  column names it returns the empty record for any row. For a row shorter than the
  column names it does not return: indexing the row panics. (Both drivers call it only
  with rows whose field count the reader has checked against the column names.)
\<close>

theorem fieldsToRecord_long_row:
  "(length cols \<le> length row \<longrightarrow>
      fieldsToRecord cols row = Return (Map.empty(cols [\<mapsto>] row))) \<and>
   (length row < length cols \<longrightarrow> fieldsToRecord cols row = Panic) \<and>
   fieldsToRecord [] row = Return Map.empty"
  by (simp add: fieldsToRecord_ok fieldsToRecord_short)

theorem fieldsToRecord_long_row_witness:
  "fieldsToRecord [''a'', ''b'', ''c''] [''1'', ''2'', ''3'', ''4'']
     = Return [''a'' \<mapsto> ''1'', ''b'' \<mapsto> ''2'', ''c'' \<mapsto> ''3''] \<and>
   fieldsToRecord [''a'', ''b''] [''1'', ''2'', ''3'']
     = Return [''a'' \<mapsto> ''1'', ''b'' \<mapsto> ''2''] \<and>
   fieldsToRecord [''a'', ''b'', ''c''] [''1'', ''2''] = Panic"
  using fieldsToRecord_long_row [of "[''a'', ''b'', ''c'']" "[''1'', ''2'', ''3'', ''4'']"]
    fieldsToRecord_long_row [of "[''a'', ''b'']" "[''1'', ''2'', ''3'']"]
    fieldsToRecord_long_row [of "[''a'', ''b'', ''c'']" "[''1'', ''2'']"]
  by simp

text \<open>
  Claim C2 as the specification states it fails: for the columns \<open>a, b\<close> and the row
  \<open>1\<close> the builder panics instead of returning the record \<open>{a: 1}\<close>.
\<close>

theorem fieldsToRecord_short_row_counterexample:
  "fieldsToRecord [''a'', ''b''] [''1''] = Panic \<and>
   fieldsToRecord [''a'', ''b''] [''1''] \<noteq> Return [''a'' \<mapsto> ''1'']"
  by (simp add: fieldsToRecord_short)

text \<open>
  Claim C10. When a name stands at more than one index of the column names and the row
  is at least as long as the column names, the record maps the name to the row value at
  the greatest index where it occurs (an index with no later occurrence of its name),
  and its keys are exactly the distinct names.
\<close>

theorem fieldsToRecord_duplicate_names:
  "length cols \<le> length row \<Longrightarrow>
   \<exists>rec. fieldsToRecord cols row = Return rec \<and> dom rec = set cols \<and>
     (\<forall>i<length cols. (\<forall>j<length cols. i < j \<longrightarrow> cols ! j \<noteq> cols ! i)
        \<longrightarrow> rec (cols ! i) = Some (row ! i))"
  by (simp add: fieldsToRecord_ok map_upds_last_occurrence)

theorem fieldsToRecord_duplicate_names_witness:
  "\<exists>rec. fieldsToRecord [''a'', ''b'', ''a''] [''1'', ''2'', ''3''] = Return rec \<and>
     dom rec = {''a'', ''b''} \<and> rec ''a'' = Some ''3'' \<and> rec ''b'' = Some ''2''"
proof -
  have len: "length [''a'', ''b'', ''a''] \<le> length [''1'', ''2'', ''3'']" by simp
  from fieldsToRecord_duplicate_names [OF len]
  obtain rec where r: "fieldsToRecord [''a'', ''b'', ''a''] [''1'', ''2'', ''3''] = Return rec"
    and d: "dom rec = set [''a'', ''b'', ''a'']"
    and v: "\<forall>i<length [''a'', ''b'', ''a''].
              (\<forall>j<length [''a'', ''b'', ''a''].
                  i < j \<longrightarrow> [''a'', ''b'', ''a''] ! j \<noteq> [''a'', ''b'', ''a''] ! i)
              \<longrightarrow> rec ([''a'', ''b'', ''a''] ! i) = Some ([''1'', ''2'', ''3''] ! i)"
    by blast
  have "rec ''a'' = Some ''3''"
    using v [rule_format, of 2] by (simp add: less_Suc_eq numeral_3_eq_3)
  moreover have "rec ''b'' = Some ''2''"
    using v [rule_format, of 1] by (simp add: less_Suc_eq numeral_3_eq_3)
  ultimately show ?thesis using r d by auto
qed

section \<open>The byte order mark\<close>

lemma byte_from_div_mod:
  fixes a :: nat
  assumes "n * q \<le> a" "a < n * Suc q" "a mod n = r"
  shows "a = n * q + r"
proof -
  have "a div n = q" using assms(1,2) by (rule div_nat_eqI)
  then show ?thesis using div_mult_mod_eq [of a n] assms(3) by (simp add: mult.commute)
qed

lemma split3:
  fixes x y z :: nat
  assumes "x * 4096 + y * 64 + z = r" "y < 64" "z < 64"
  shows "z = r mod 64" "y = (r div 64) mod 64" "x = r div 4096"
proof -
  define w where "w = x * 64 + y"
  have r: "r = w * 64 + z" using assms(1) by (simp add: w_def algebra_simps)
  show z: "z = r mod 64" using assms(3) unfolding r by simp
  have d: "r div 64 = w" using assms(3) unfolding r by simp
  show "y = (r div 64) mod 64" using assms(2) unfolding d w_def by simp
  have "r div 4096 = (r div 64) div 64" by (simp add: div_mult2_eq)
  then show "x = r div 4096" using assms(2) unfolding d w_def by simp
qed

lemma rune3:
  fixes a b c :: nat
  assumes e: "a mod 16 * 4096 + b mod 64 * 64 + c mod 64 = 65279"
    and "224 \<le> a" "a < 240" "128 \<le> b" "b \<le> 191" "128 \<le> c" "c \<le> 191"
  shows "a = 239 \<and> b = 187 \<and> c = 191"
proof -
  have "c mod 64 = 65279 mod 64" "b mod 64 = (65279 div 64) mod 64" "a mod 16 = 65279 div 4096"
    using split3 [OF e] by simp_all
  then have m: "c mod 64 = 63" "b mod 64 = 59" "a mod 16 = 15" by simp_all
  have "a = 16 * 14 + 15" using assms by (intro byte_from_div_mod m) simp_all
  moreover have "b = 64 * 2 + 59" using assms by (intro byte_from_div_mod m) simp_all
  moreover have "c = 64 * 2 + 63" using assms by (intro byte_from_div_mod m) simp_all
  ultimately show ?thesis by simp
qed

lemma rune4:
  fixes a b c d :: nat
  assumes e: "a mod 8 * 262144 + b mod 64 * 4096 + c mod 64 * 64 + d mod 64 = 65279"
    and a: "240 \<le> a" "a \<le> 244" and b: "128 \<le> b" "b \<le> 191" "a = 240 \<longrightarrow> 144 \<le> b"
  shows False
proof -
  have "a mod 8 = 0" using e by (cases "a mod 8") simp_all
  then have "a = 8 * 30 + 0" using a by (intro byte_from_div_mod) simp_all
  then have "144 \<le> b" using b by simp
  have "b = 64 * 2 + b mod 64" using b by (intro byte_from_div_mod) simp_all
  with \<open>144 \<le> b\<close> have "16 \<le> b mod 64" by linarith
  then have "16 * 4096 \<le> b mod 64 * 4096" by (rule mult_le_mono1)
  with e show False by simp
qed

lemma rune4b:
  fixes b c d :: nat
  assumes e: "b mod 64 * 4096 + c mod 64 * 64 + d mod 64 = 65279"
    and b: "144 \<le> b" "b \<le> 191"
  shows False
proof -
  have "b = 64 * 2 + b mod 64" using b by (intro byte_from_div_mod) simp_all
  with \<open>144 \<le> b\<close> have "16 \<le> b mod 64" by linarith
  then have "16 * 4096 \<le> b mod 64 * 4096" by (rule mult_le_mono1)
  with e show False by simp
qed

lemma of_char_nat_inj: "(of_char c :: nat) = of_char d \<Longrightarrow> c = d"
  by (metis char_of_char)

lemma take3: "3 \<le> length p \<Longrightarrow> take 3 p = [p ! 0, p ! 1, p ! 2]"
  by (cases p; cases "tl p"; cases "tl (tl p)") (auto simp: numeral_3_eq_3)

lemma DecodeRune_BOM: "DecodeRune (BOM @ p) = (0xFEFF, 3)"
  by (simp add: DecodeRune_def Let_def)

lemma DecodeRune_is_BOM:
  assumes "fst (DecodeRune p) = 0xFEFF"
  shows "take 3 p = BOM"
proof -
  define a where "a = (of_char (p ! 0) :: nat)"
  define b where "b = (of_char (p ! 1) :: nat)"
  define c where "c = (of_char (p ! 2) :: nat)"
  define d where "d = (of_char (p ! 3) :: nat)"
  have "3 \<le> length p \<and> a = 0xEF \<and> b = 0xBB \<and> c = 0xBF"
    using assms
    unfolding DecodeRune_def Let_def a_def [symmetric] b_def [symmetric]
      c_def [symmetric] d_def [symmetric]
    by (auto split: if_splits simp: not_less dest: rune3 rune4 rune4b)
  then have "3 \<le> length p" "p ! 0 = CHR 0xEF" "p ! 1 = CHR 0xBB" "p ! 2 = CHR 0xBF"
    unfolding a_def b_def c_def by (auto intro!: of_char_nat_inj)
  then show ?thesis by (simp add: take3)
qed

lemma take3_BOM: "take 3 s = BOM \<Longrightarrow> s = BOM @ drop 3 s"
  by (metis append_take_drop_id)

lemma getCsvReader_Data:
  "getCsvReader (Data s) =
     Inr (csv_NewReader
            \<lparr>br_rd = Data s, br_r = (if take 3 s = BOM then 3 else 0),
             br_lastRuneSize = (if take 3 s = BOM then 3 else - 1)\<rparr>)"
proof (cases "take 3 s = BOM")
  case True
  then have s: "s = BOM @ drop 3 s" by (rule take3_BOM)
  have "DecodeRune s = (0xFEFF, 3)" by (subst s) (rule DecodeRune_BOM)
  moreover have "s \<noteq> []" using True by auto
  ultimately show ?thesis
    using True by (simp add: getCsvReader_def bufio_NewReader_def ReadRune_def)
next
  case False
  show ?thesis
  proof (cases "s = []")
    case True
    then show ?thesis
      by (simp add: getCsvReader_def bufio_NewReader_def ReadRune_def UnreadRune_def)
  next
    case nonempty: False
    obtain r sz where d: "DecodeRune s = (r, sz)" by (cases "DecodeRune s")
    have "r \<noteq> 0xFEFF" using DecodeRune_is_BOM [of s] d False by auto
    then show ?thesis
      using False nonempty d
      by (simp add: getCsvReader_def bufio_NewReader_def ReadRune_def UnreadRune_def)
  qed
qed

lemma getCsvReader_pending:
  "getCsvReader (Data s) =
     Inr \<lparr>FieldsPerRecord = 0,
          pending = readRecords 0 (readLines [] (if take 3 s = BOM then drop 3 s else s))\<rparr>"
  by (simp add: getCsvReader_Data csv_NewReader_def unread_def)

lemma getCsvReader_Broken:
  "getCsvReader (Broken e) =
     (if e \<noteq> EOF then Inl e else Inr \<lparr>FieldsPerRecord = 0, pending = []\<rparr>)"
  by (simp add: getCsvReader_def bufio_NewReader_def ReadRune_def UnreadRune_def
      csv_NewReader_def unread_def)

lemma getCsvReader_FieldsPerRecord:
  "getCsvReader inp = Inr rd \<Longrightarrow> FieldsPerRecord rd = 0"
  by (cases inp) (auto simp: getCsvReader_pending getCsvReader_Broken split: if_splits)

lemma getCsvReader_main_eq:
  "getCsvReader_main inp = (case getCsvReader inp of Inl e \<Rightarrow> Exit e | Inr rd \<Rightarrow> Return rd)"
  by (simp add: getCsvReader_main_def getCsvReader_def Let_def split: prod.splits option.splits)

text \<open>
  Claim C6. For every input that can be read, \<open>getCsvReader\<close> hands to the CSV reader
  the input without its first three bytes when these are the byte order mark, which is
  the case exactly when the first rune is \<open>U+FEFF\<close>, and the whole input, byte for byte,
  otherwise.
\<close>

theorem getCsvReader_strips_leading_BOM:
  "(fst (DecodeRune s) = 0xFEFF \<longleftrightarrow> take 3 s = BOM) \<and>
   (\<exists>br. getCsvReader (Data s) = Inr (csv_NewReader br) \<and>
         unread br = (if take 3 s = BOM then drop 3 s else s))"
proof
  show "fst (DecodeRune s) = 0xFEFF \<longleftrightarrow> take 3 s = BOM"
  proof
    assume "take 3 s = BOM"
    then have "s = BOM @ drop 3 s" by (rule take3_BOM)
    then have "DecodeRune s = (0xFEFF, 3)" using DecodeRune_BOM by metis
    then show "fst (DecodeRune s) = 0xFEFF" by simp
  qed (rule DecodeRune_is_BOM)
  show "\<exists>br. getCsvReader (Data s) = Inr (csv_NewReader br) \<and>
          unread br = (if take 3 s = BOM then drop 3 s else s)"
    unfolding getCsvReader_Data by (rule exI, rule conjI, rule refl) (simp add: unread_def)
qed

theorem getCsvReader_strips_leading_BOM_witness:
  "(\<exists>br. getCsvReader (Data (BOM @ ''a,b'')) = Inr (csv_NewReader br) \<and> unread br = ''a,b'') \<and>
   (\<exists>br. getCsvReader (Data ''a,b'') = Inr (csv_NewReader br) \<and> unread br = ''a,b'') \<and>
   (\<exists>br. getCsvReader (Data (''a'' @ BOM)) = Inr (csv_NewReader br) \<and> unread br = ''a'' @ BOM)"
  using getCsvReader_strips_leading_BOM [of "BOM @ ''a,b''"]
    getCsvReader_strips_leading_BOM [of "''a,b''"]
    getCsvReader_strips_leading_BOM [of "''a'' @ BOM"]
  by simp

text \<open>
  Claim C3, at a stream whose first read fails (a directory opened as a file): the
  \<open>getCsvReader\<close> of the \<open>package main\<close> programs ends the process, and so does their
  \<open>csv2Json\<close>; the \<open>getCsvReader\<close> of package \<open>converter\<close> returns the error.
\<close>

theorem getCsvReader_main_read_failure:
  "getCsvReader_main (Broken (ReadError ''is a directory'')) = Exit (ReadError ''is a directory'') \<and>
   csv2Json_main
     \<lparr>co_colNames = [], co_csvInput = Broken (ReadError ''is a directory''),
      co_jsonOutput = \<lparr>refuses = None, written = []\<rparr>, co_skipErrors = False\<rparr> []
     = Exit (ReadError ''is a directory'') \<and>
   getCsvReader (Broken (ReadError ''is a directory'')) = Inl (ReadError ''is a directory'')"
  by (simp add: getCsvReader_main_eq getCsvReader_Broken csv2Json_main_def)

section \<open>The reader and the row loops\<close>

declare buildRecords_loop.simps [simp del] csv2Json_loop.simps [simp del]

lemma Read_Nil: "pending rd = [] \<Longrightarrow> Read rd = (([], Some EOF), rd)"
  by (simp add: Read_def)

lemma Read_Cons:
  "pending rd = r # rest \<Longrightarrow> FieldsPerRecord rd = int n \<Longrightarrow> 0 < n \<Longrightarrow>
   Read rd = ((fst (snd r), rowError n r), rd\<lparr>pending := rest\<rparr>)"
  by (cases r) (simp add: Read_def rowError_def Let_def)

lemma rowError_not_EOF: "rowError n r \<noteq> Some EOF"
  by (cases r) (auto simp: rowError_def Read_def Let_def)

lemma rowError_None_length: "0 < n \<Longrightarrow> rowError n r = None \<Longrightarrow> length (fst (snd r)) = n"
  by (cases r) (auto simp: rowError_def Read_def Let_def split: if_splits)

lemma buildRecords_loop_skip:
  assumes "SkipErrors opts" "0 < length (ColNames opts)"
  shows "FieldsPerRecord rd = int (length (ColNames opts)) \<Longrightarrow>
    buildRecords_loop rd opts recs sk =
      Return (recs @ map (\<lambda>r. Map.empty(ColNames opts [\<mapsto>] fst (snd r)))
                       (filter (\<lambda>r. rowError (length (ColNames opts)) r = None) (pending rd)),
              sk + length (List.map_filter (rowError (length (ColNames opts))) (pending rd)),
              None,
              opts\<lparr>Logger := Logger opts @ map SkippedParsingError
                        (List.map_filter (rowError (length (ColNames opts))) (pending rd))\<rparr>)"
  using assms
proof (induction "pending rd" arbitrary: rd opts recs sk)
  case Nil
  then show ?case
    by (subst buildRecords_loop.simps) (simp add: Read_Nil [OF Nil.hyps [symmetric]])
next
  case (Cons r rest)
  let ?n = "length (ColNames opts)"
  have rd: "Read rd = ((fst (snd r), rowError ?n r), rd\<lparr>pending := rest\<rparr>)"
    using Cons.hyps(2) Cons.prems by (intro Read_Cons) simp_all
  show ?case
  proof (cases "rowError ?n r")
    case None
    then have len: "length (fst (snd r)) = ?n"
      using Cons.prems by (intro rowError_None_length) simp_all
    have "buildRecords_loop rd opts recs sk =
          buildRecords_loop (rd\<lparr>pending := rest\<rparr>) opts
            (recs @ [Map.empty(ColNames opts [\<mapsto>] fst (snd r))]) sk"
      by (subst buildRecords_loop.simps) (simp add: rd None fieldsToRecord_ok len)
    also have "\<dots> = Return ((recs @ [Map.empty(ColNames opts [\<mapsto>] fst (snd r))]) @
                   map (\<lambda>r. Map.empty(ColNames opts [\<mapsto>] fst (snd r)))
                       (filter (\<lambda>r. rowError ?n r = None) rest),
              sk + length (List.map_filter (rowError ?n) rest), None,
              opts\<lparr>Logger := Logger opts @ map SkippedParsingError
                        (List.map_filter (rowError ?n) rest)\<rparr>)"
      using Cons.hyps(1) [of "rd\<lparr>pending := rest\<rparr>" opts] Cons.prems by simp
    finally show ?thesis
      using None Cons.hyps(2) [symmetric] by simp
  next
    case (Some e)
    then have e: "e \<noteq> EOF" using rowError_not_EOF [of ?n r] by auto
    let ?opts = "opts\<lparr>Logger := Logger opts @ [SkippedParsingError e]\<rparr>"
    have "buildRecords_loop rd opts recs sk =
          buildRecords_loop (rd\<lparr>pending := rest\<rparr>) ?opts recs (sk + 1)"
      using Cons.prems by (subst buildRecords_loop.simps) (simp add: rd Some e)
    also have "\<dots> = Return (recs @
                   map (\<lambda>r. Map.empty(ColNames ?opts [\<mapsto>] fst (snd r)))
                       (filter (\<lambda>r. rowError (length (ColNames ?opts)) r = None) rest),
              (sk + 1) + length (List.map_filter (rowError (length (ColNames ?opts))) rest), None,
              ?opts\<lparr>Logger := Logger ?opts @ map SkippedParsingError
                        (List.map_filter (rowError (length (ColNames ?opts))) rest)\<rparr>)"
      using Cons.hyps(1) [of "rd\<lparr>pending := rest\<rparr>" ?opts] Cons.prems by simp
    finally show ?thesis
      using Some Cons.hyps(2) [symmetric] by simp
  qed
qed

lemma buildRecords_loop_abort:
  assumes "\<not> SkipErrors opts" "0 < length (ColNames opts)"
  shows "FieldsPerRecord rd = int (length (ColNames opts)) \<Longrightarrow>
    buildRecords_loop rd opts recs sk =
      Return (recs @ map (\<lambda>r. Map.empty(ColNames opts [\<mapsto>] fst (snd r)))
                       (takeWhile (\<lambda>r. rowError (length (ColNames opts)) r = None) (pending rd)),
              sk,
              (case dropWhile (\<lambda>r. rowError (length (ColNames opts)) r = None) (pending rd) of
                 [] \<Rightarrow> None | r # rest \<Rightarrow> rowError (length (ColNames opts)) r),
              opts)"
proof (induction "pending rd" arbitrary: rd recs)
  case Nil
  then show ?case
    by (subst buildRecords_loop.simps) (simp add: Read_Nil [OF Nil.hyps [symmetric]])
next
  case (Cons r rest)
  let ?n = "length (ColNames opts)"
  have rd: "Read rd = ((fst (snd r), rowError ?n r), rd\<lparr>pending := rest\<rparr>)"
    using Cons.hyps(2) Cons.prems assms by (intro Read_Cons) simp_all
  show ?case
  proof (cases "rowError ?n r")
    case None
    then have len: "length (fst (snd r)) = ?n"
      using assms by (intro rowError_None_length) simp_all
    have "buildRecords_loop rd opts recs sk =
          buildRecords_loop (rd\<lparr>pending := rest\<rparr>) opts
            (recs @ [Map.empty(ColNames opts [\<mapsto>] fst (snd r))]) sk"
      by (subst buildRecords_loop.simps) (simp add: rd None fieldsToRecord_ok len)
    also have "\<dots> = Return ((recs @ [Map.empty(ColNames opts [\<mapsto>] fst (snd r))]) @
                   map (\<lambda>r. Map.empty(ColNames opts [\<mapsto>] fst (snd r)))
                       (takeWhile (\<lambda>r. rowError ?n r = None) rest),
              sk,
              (case dropWhile (\<lambda>r. rowError ?n r = None) rest of
                 [] \<Rightarrow> None | r # rest \<Rightarrow> rowError ?n r),
              opts)"
      using Cons.hyps(1) [of "rd\<lparr>pending := rest\<rparr>"] Cons.prems by simp
    finally show ?thesis
      using None Cons.hyps(2) [symmetric] by simp
  next
    case (Some e)
    then have e: "e \<noteq> EOF" using rowError_not_EOF [of ?n r] by auto
    have "buildRecords_loop rd opts recs sk = Return (recs, sk, Some e, opts)"
      using assms by (subst buildRecords_loop.simps) (simp add: rd Some e)
    then show ?thesis
      using Some Cons.hyps(2) [symmetric] by simp
  qed
qed

lemma Read_wellformed:
  assumes "pending rd = r # rest" "FieldsPerRecord rd = int n"
    "snd (snd r) = None" "length (fst (snd r)) = n"
  shows "Read rd = ((fst (snd r), None), rd\<lparr>pending := rest\<rparr>)"
proof -
  obtain l dst where r: "r = (l, dst, None)" using assms(3) by (cases r) auto
  have "rd\<lparr>FieldsPerRecord := int (length dst), pending := rest\<rparr> = rd\<lparr>pending := rest\<rparr>"
    using assms r by simp
  then show ?thesis
    using assms r by (simp add: Read_def)
qed

lemma buildRecords_loop_wellformed:
  "FieldsPerRecord rd = int (length (ColNames opts)) \<Longrightarrow>
   \<forall>r\<in>set (pending rd). snd (snd r) = None \<and> length (fst (snd r)) = length (ColNames opts) \<Longrightarrow>
   buildRecords_loop rd opts recs sk =
     Return (recs @ map (\<lambda>r. Map.empty(ColNames opts [\<mapsto>] fst (snd r))) (pending rd),
             sk, None, opts)"
proof (induction "pending rd" arbitrary: rd recs)
  case Nil
  then show ?case
    by (subst buildRecords_loop.simps) (simp add: Read_Nil [OF Nil.hyps [symmetric]])
next
  case (Cons r rest)
  have p: "pending rd = r # rest" using Cons.hyps(2) by simp
  have good: "snd (snd r) = None" "length (fst (snd r)) = length (ColNames opts)"
    using Cons.prems(2) p by simp_all
  have rd: "Read rd = ((fst (snd r), None), rd\<lparr>pending := rest\<rparr>)"
    using p Cons.prems(1) good by (rule Read_wellformed)
  have "buildRecords_loop rd opts recs sk =
        buildRecords_loop (rd\<lparr>pending := rest\<rparr>) opts
          (recs @ [Map.empty(ColNames opts [\<mapsto>] fst (snd r))]) sk"
    by (subst buildRecords_loop.simps) (simp add: rd fieldsToRecord_ok good)
  also have "\<dots> = Return ((recs @ [Map.empty(ColNames opts [\<mapsto>] fst (snd r))]) @
                 map (\<lambda>r. Map.empty(ColNames opts [\<mapsto>] fst (snd r))) rest, sk, None, opts)"
    using Cons.hyps(1) [of "rd\<lparr>pending := rest\<rparr>"] Cons.prems p by simp
  finally show ?case using p by simp
qed

lemma Read_pending:
  "pending rd = r # rest \<Longrightarrow> pending (snd (Read rd)) = rest"
  by (cases r) (simp add: Read_def Let_def)

lemma csv2Json_loop_buildRecords_loop:
  "csv2Json_loop rd (ColNames opts) (SkipErrors opts) recs sk (Logger opts) =
     (case buildRecords_loop rd opts recs sk of
        Return (recs', sk', err, opts') \<Rightarrow> Return (err, recs', sk', Logger opts')
      | Panic \<Rightarrow> Panic
      | Exit x \<Rightarrow> Exit x)"
proof (induction "pending rd" arbitrary: rd opts recs sk)
  case Nil
  then show ?case
    by (subst buildRecords_loop.simps, subst csv2Json_loop.simps)
      (simp add: Read_Nil [OF Nil.hyps [symmetric]])
next
  case (Cons r rest)
  obtain row err rd' where rd: "Read rd = ((row, err), rd')"
    by (cases "Read rd") auto
  then have p: "rest = pending rd'"
    using Read_pending [OF Cons.hyps(2) [symmetric]] by simp
  show ?case
  proof (cases err)
    case None
    show ?thesis
    proof (cases "fieldsToRecord (ColNames opts) row")
      case (Return thisRecord)
      show ?thesis
        using Cons.hyps(1) [OF p, of opts "recs @ [thisRecord]" sk]
        by (subst buildRecords_loop.simps, subst csv2Json_loop.simps)
          (simp add: rd None Return)
    qed (subst buildRecords_loop.simps, subst csv2Json_loop.simps, simp add: rd None)+
  next
    case (Some e)
    show ?thesis
    proof (cases "SkipErrors opts")
      case True
      show ?thesis
        using Cons.hyps(1) [OF p, of "opts\<lparr>Logger := Logger opts @ [SkippedParsingError e]\<rparr>"
            recs "sk + 1"] True
        by (subst buildRecords_loop.simps, subst csv2Json_loop.simps)
          (simp add: rd Some)
    next
      case False
      then show ?thesis
        by (subst buildRecords_loop.simps, subst csv2Json_loop.simps)
          (simp add: rd Some)
    qed
  qed
qed

section \<open>The drivers\<close>

text \<open>Equations for running the reader on a given input.\<close>

lemmas csv_eval = readLines.simps readRecords.simps parseField.simps quotedField.simps
  lengthNL_def normalizeNL_def Let_def

lemma Read_header:
  "pending rd = (l, dst, perr) # rest \<Longrightarrow> FieldsPerRecord rd = 0 \<Longrightarrow>
   Read rd = ((dst, map_option (ParseError l) perr),
              rd\<lparr>FieldsPerRecord := int (length dst), pending := rest\<rparr>)"
  by (simp add: Read_def)

lemma csv2Json_loop_wellformed:
  assumes "FieldsPerRecord rd = int (length cols)"
    and "\<forall>r\<in>set (pending rd). snd (snd r) = None \<and> length (fst (snd r)) = length cols"
  shows "csv2Json_loop rd cols sk recs n lg =
     Return (None, recs @ map (\<lambda>r. Map.empty(cols [\<mapsto>] fst (snd r))) (pending rd), n, lg)"
  using csv2Json_loop_buildRecords_loop
      [of rd "\<lparr>ColNames = cols, CsvInput = Data [], JsonOutput = \<lparr>refuses = None, written = []\<rparr>,
               SkipErrors = sk, Logger = lg\<rparr>" recs n]
    buildRecords_loop_wellformed
      [of rd "\<lparr>ColNames = cols, CsvInput = Data [], JsonOutput = \<lparr>refuses = None, written = []\<rparr>,
               SkipErrors = sk, Logger = lg\<rparr>" recs n] assms
  by simp

lemma header_rows_convert:
  assumes g: "getCsvReader inp = Inr rd"
    and p: "pending rd = (l, hdr, None) # rows"
    and wf: "\<forall>r\<in>set rows. snd (snd r) = None \<and> length (fst (snd r)) = length hdr"
    and w: "refuses out = None"
  shows "Instrument \<lparr>ColNames = [], CsvInput = inp, JsonOutput = out, SkipErrors = sk, Logger = lg\<rparr>
           = Return (None,
               \<lparr>ColNames = hdr, CsvInput = inp,
                JsonOutput = out\<lparr>written := written out @
                  [JsonArray (map (\<lambda>r. Map.empty(hdr [\<mapsto>] fst (snd r))) rows)]\<rparr>,
                SkipErrors = sk, Logger = lg\<rparr>) \<and>
         csv2Json_main
           \<lparr>co_colNames = [], co_csvInput = inp, co_jsonOutput = out, co_skipErrors = sk\<rparr> stdlog
           = Return (None,
               out\<lparr>written := written out @
                  [JsonArray (map (\<lambda>r. Map.empty(hdr [\<mapsto>] fst (snd r))) rows)]\<rparr>,
               stdlog)"
proof -
  have f: "FieldsPerRecord rd = 0" using g by (rule getCsvReader_FieldsPerRecord)
  let ?rd = "rd\<lparr>pending := rows, FieldsPerRecord := int (length hdr)\<rparr>"
  have h: "Read rd = ((hdr, None), ?rd)"
    using Read_header [OF p f] by simp
  let ?opts = "\<lparr>ColNames = hdr, CsvInput = inp, JsonOutput = out, SkipErrors = sk, Logger = lg\<rparr>"
  have b: "buildRecords_loop ?rd ?opts [] 0 =
             Return (map (\<lambda>r. Map.empty(hdr [\<mapsto>] fst (snd r))) rows, 0, None, ?opts)"
    using buildRecords_loop_wellformed [of ?rd ?opts "[]" 0] wf by simp
  have c: "csv2Json_loop ?rd hdr sk [] 0 stdlog =
             Return (None, map (\<lambda>r. Map.empty(hdr [\<mapsto>] fst (snd r))) rows, 0, stdlog)"
    using csv2Json_loop_wellformed [of ?rd hdr sk "[]" 0 stdlog] wf by simp
  have i: "Instrument \<lparr>ColNames = [], CsvInput = inp, JsonOutput = out, SkipErrors = sk, Logger = lg\<rparr>
           = Return (None,
               \<lparr>ColNames = hdr, CsvInput = inp,
                JsonOutput = out\<lparr>written := written out @
                  [JsonArray (map (\<lambda>r. Map.empty(hdr [\<mapsto>] fst (snd r))) rows)]\<rparr>,
                SkipErrors = sk, Logger = lg\<rparr>)"
    by (simp add: Instrument_def g parseColumnNames_def h buildRecords_def b Encode_def w)
  have m: "csv2Json_main
           \<lparr>co_colNames = [], co_csvInput = inp, co_jsonOutput = out, co_skipErrors = sk\<rparr> stdlog
           = Return (None,
               out\<lparr>written := written out @
                  [JsonArray (map (\<lambda>r. Map.empty(hdr [\<mapsto>] fst (snd r))) rows)]\<rparr>,
               stdlog)"
    by (simp add: csv2Json_main_def getCsvReader_main_eq g csv2Json_body_def h c Encode_def w)
  show ?thesis using i m by simp
qed

text \<open>
  Claim C7. Let the reader that \<open>getCsvReader\<close> returns for the input hold a header
  record and \<open>N\<close> further records, none with a quoting error and each with as many
  fields as the header; let the writer accept the document. Then, with no column
  override and either setting of \<open>SkipErrors\<close>, \<open>Instrument\<close> and the \<open>csv2Json\<close> of the
  \<open>package main\<close> programs return no error and write one JSON array of \<open>N\<close> objects,
  the records of the rows in input order; nothing is logged.
\<close>

theorem wellformed_input_converts_every_row:
  assumes g: "getCsvReader inp = Inr rd"
    and p: "pending rd = (l, hdr, None) # rows"
    and wf: "\<forall>r\<in>set rows. snd (snd r) = None \<and> length (fst (snd r)) = length hdr"
    and w: "refuses out = None"
  shows "Instrument \<lparr>ColNames = [], CsvInput = inp, JsonOutput = out, SkipErrors = sk, Logger = lg\<rparr>
           = Return (None,
               \<lparr>ColNames = hdr, CsvInput = inp,
                JsonOutput = out\<lparr>written := written out @
                  [JsonArray (map (\<lambda>r. Map.empty(hdr [\<mapsto>] fst (snd r))) rows)]\<rparr>,
                SkipErrors = sk, Logger = lg\<rparr>) \<and>
         csv2Json_main
           \<lparr>co_colNames = [], co_csvInput = inp, co_jsonOutput = out, co_skipErrors = sk\<rparr> stdlog
           = Return (None,
               out\<lparr>written := written out @
                  [JsonArray (map (\<lambda>r. Map.empty(hdr [\<mapsto>] fst (snd r))) rows)]\<rparr>,
               stdlog) \<and>
         length (map (\<lambda>r. Map.empty(hdr [\<mapsto>] fst (snd r))) rows) = length rows"
  using header_rows_convert [OF assms] by simp

theorem wellformed_input_converts_every_row_witness:
  "Instrument \<lparr>ColNames = [], CsvInput = Data ''a,b,c\<newline>1,2,3\<newline>z,y,x\<newline>'',
      JsonOutput = \<lparr>refuses = None, written = []\<rparr>, SkipErrors = False, Logger = []\<rparr>
     = Return (None,
         \<lparr>ColNames = [''a'', ''b'', ''c''], CsvInput = Data ''a,b,c\<newline>1,2,3\<newline>z,y,x\<newline>'',
          JsonOutput = \<lparr>refuses = None, written =
            [JsonArray [[''a'' \<mapsto> ''1'', ''b'' \<mapsto> ''2'', ''c'' \<mapsto> ''3''],
                        [''a'' \<mapsto> ''z'', ''b'' \<mapsto> ''y'', ''c'' \<mapsto> ''x'']]]\<rparr>,
          SkipErrors = False, Logger = []\<rparr>)"
proof -
  have g: "getCsvReader (Data ''a,b,c\<newline>1,2,3\<newline>z,y,x\<newline>'') =
             Inr \<lparr>FieldsPerRecord = 0, pending =
                   [(1, [''a'', ''b'', ''c''], None), (2, [''1'', ''2'', ''3''], None),
                    (3, [''z'', ''y'', ''x''], None)]\<rparr>"
    by (simp add: getCsvReader_pending csv_eval)
  show ?thesis
    using wellformed_input_converts_every_row
      [OF g, of 1 "[''a'', ''b'', ''c'']"
         "[(2, [''1'', ''2'', ''3''], None), (3, [''z'', ''y'', ''x''], None)]"
         "\<lparr>refuses = None, written = []\<rparr>" False "[]" "[]"]
    by simp
qed

section \<open>Records without an error have a field\<close>

declare parseField.simps [simp del] quotedField.simps [simp del]

lemma parse_no_error_has_fields:
  "fst (snd (parseField line ls n dst)) = None \<longrightarrow> fst (parseField line ls n dst) \<noteq> []"
  "fst (snd (quotedField line ls n dst buf)) = None \<longrightarrow>
     fst (quotedField line ls n dst buf) \<noteq> []"
proof (induction line ls n dst and line ls n dst buf rule: parseField_quotedField.induct)
  case (1 line ls n dst)
  show ?case
  proof (cases "line = [] \<or> hd line \<noteq> quote")
    case False
    then have "parseField line ls n dst = quotedField (tl line) ls n dst []"
      by (subst parseField.simps) simp
    then show ?thesis using "1.IH"(2) [OF False] by simp
  next
    case True
    define post where "post = dropWhile (\<lambda>c. c \<noteq> comma) line"
    define field where "field = (if post \<noteq> [] then takeWhile (\<lambda>c. c \<noteq> comma) line
                                   else take (length line - lengthNL line) line)"
    have eq: "parseField line ls n dst =
       (if quote \<in> set field then (dst, Some ErrBareQuote, n, ls)
        else (case post of [] \<Rightarrow> (dst @ [field], None, n, ls)
              | c # line' \<Rightarrow> parseField line' ls n (dst @ [field])))"
      by (subst parseField.simps) (simp only: True if_True Let_def field_def post_def)
    show ?thesis
    proof (cases "quote \<in> set field")
      case bare: True
      then show ?thesis unfolding eq by simp
    next
      case nobare: False
      show ?thesis
      proof (cases post)
        case Nil
        then show ?thesis unfolding eq using nobare by simp
      next
        case (Cons c line')
        have "fst (snd (parseField line' ls n (dst @ [field]))) = None \<longrightarrow>
              fst (parseField line' ls n (dst @ [field])) \<noteq> []"
          using "1.IH"(1) [OF True refl refl refl _ Cons [unfolded post_def]] nobare
          unfolding field_def post_def by simp
        then show ?thesis unfolding eq using nobare Cons by simp
      qed
    qed
  qed
next
  case (2 line ls n dst buf)
  define post where "post = dropWhile (\<lambda>c. c \<noteq> quote) line"
  define buf' where "buf' = buf @ takeWhile (\<lambda>c. c \<noteq> quote) line"
  have eq: "quotedField line ls n dst buf =
     (case post of
        c # line' \<Rightarrow>
           (if line' \<noteq> [] \<and> hd line' = quote then
             quotedField (tl line') ls n dst (buf' @ [quote])
           else if line' \<noteq> [] \<and> hd line' = comma then
             parseField (tl line') ls n (dst @ [buf'])
           else if lengthNL line' = length line' then (dst @ [buf'], None, n, ls)
           else (dst, Some ErrQuote, n, ls))
      | [] \<Rightarrow>
          (if line \<noteq> [] then
             (case ls of
                [] \<Rightarrow> quotedField [] [] (n + 1) dst (buf @ line)
              | l # ls' \<Rightarrow> quotedField l ls' (n + 1) dst (buf @ line))
           else (dst, Some ErrQuote, n, ls)))"
    by (subst quotedField.simps) (simp only: Let_def buf'_def post_def)
  show ?case
  proof (cases post)
    case Nil
    note p = Nil [unfolded post_def]
    show ?thesis
    proof (cases "line = []")
      case True
      then show ?thesis unfolding eq using Nil by simp
    next
      case False
      show ?thesis
      proof (cases ls)
        case lsNil: Nil
        have "fst (snd (quotedField [] [] (n + 1) dst (buf @ line))) = None \<longrightarrow>
              fst (quotedField [] [] (n + 1) dst (buf @ line)) \<noteq> []"
          using "2.IH" p False lsNil by blast
        then show ?thesis unfolding eq using Nil False lsNil by simp
      next
        case (Cons l ls')
        have "fst (snd (quotedField l ls' (n + 1) dst (buf @ line))) = None \<longrightarrow>
              fst (quotedField l ls' (n + 1) dst (buf @ line)) \<noteq> []"
          using "2.IH" p False Cons by blast
        then show ?thesis unfolding eq using Nil False Cons by simp
      qed
    qed
  next
    case (Cons c line')
    note p = Cons [unfolded post_def]
    show ?thesis
    proof (cases "line' \<noteq> [] \<and> hd line' = quote")
      case True
      have "fst (snd (quotedField (tl line') ls n dst (buf' @ [quote]))) = None \<longrightarrow>
            fst (quotedField (tl line') ls n dst (buf' @ [quote])) \<noteq> []"
        using "2.IH" p True unfolding buf'_def by blast
      then show ?thesis unfolding eq using Cons True by simp
    next
      case nq: False
      show ?thesis
      proof (cases "line' \<noteq> [] \<and> hd line' = comma")
        case True
        have "fst (snd (parseField (tl line') ls n (dst @ [buf']))) = None \<longrightarrow>
              fst (parseField (tl line') ls n (dst @ [buf'])) \<noteq> []"
          using "2.IH" p nq True unfolding buf'_def by blast
        then show ?thesis unfolding eq using Cons True nq by simp
      next
        case False
        then show ?thesis unfolding eq using Cons nq by auto
      qed
    qed
  qed
qed

lemma readRecords_no_error_has_fields:
  "(l, dst, None) \<in> set (readRecords n ls) \<Longrightarrow> dst \<noteq> []"
proof (induction n ls rule: readRecords.induct)
  case (1 n)
  then show ?case by simp
next
  case (2 n line ls)
  show ?case
  proof (cases "length line = lengthNL line")
    case True
    with 2 show ?thesis by simp
  next
    case False
    obtain d e n' ls' where pf: "parseField line ls (n + 1) [] = (d, e, n', ls')"
      by (cases "parseField line ls (n + 1) []") auto
    from "2.prems" False pf
    have "(l, dst, None) = (n + 1, d, e) \<or> (l, dst, None) \<in> set (readRecords n' ls')"
      by simp
    then show ?thesis
    proof
      assume "(l, dst, None) = (n + 1, d, e)"
      then show ?thesis using parse_no_error_has_fields(1) [of line ls "n + 1" "[]"] pf by auto
    next
      assume "(l, dst, None) \<in> set (readRecords n' ls')"
      then show ?thesis using "2.IH"(2) False pf by auto
    qed
  qed
qed

lemma getCsvReader_no_error_has_fields:
  "getCsvReader inp = Inr rd \<Longrightarrow> (l, dst, None) \<in> set (pending rd) \<Longrightarrow> dst \<noteq> []"
  by (cases inp)
    (auto simp: getCsvReader_pending getCsvReader_Broken
      dest: readRecords_no_error_has_fields split: if_splits)

section \<open>The drivers on a resolved header\<close>

lemma csv2Json_loop_skip:
  assumes "FieldsPerRecord rd = int (length cols)" "0 < length cols"
  shows "csv2Json_loop rd cols True recs n lg =
     Return (None,
             recs @ map (\<lambda>r. Map.empty(cols [\<mapsto>] fst (snd r)))
                      (filter (\<lambda>r. rowError (length cols) r = None) (pending rd)),
             n + length (List.map_filter (rowError (length cols)) (pending rd)),
             lg @ map SkippedParsingError (List.map_filter (rowError (length cols)) (pending rd)))"
  using csv2Json_loop_buildRecords_loop
      [of rd "\<lparr>ColNames = cols, CsvInput = Data [], JsonOutput = \<lparr>refuses = None, written = []\<rparr>,
               SkipErrors = True, Logger = lg\<rparr>" recs n]
    buildRecords_loop_skip
      [of "\<lparr>ColNames = cols, CsvInput = Data [], JsonOutput = \<lparr>refuses = None, written = []\<rparr>,
               SkipErrors = True, Logger = lg\<rparr>" rd recs n] assms
  by simp

lemma csv2Json_loop_abort:
  assumes "FieldsPerRecord rd = int (length cols)" "0 < length cols"
  shows "csv2Json_loop rd cols False recs n lg =
     Return ((case dropWhile (\<lambda>r. rowError (length cols) r = None) (pending rd) of
                [] \<Rightarrow> None | r # rest \<Rightarrow> rowError (length cols) r),
             recs @ map (\<lambda>r. Map.empty(cols [\<mapsto>] fst (snd r)))
                      (takeWhile (\<lambda>r. rowError (length cols) r = None) (pending rd)),
             n, lg)"
  using csv2Json_loop_buildRecords_loop
      [of rd "\<lparr>ColNames = cols, CsvInput = Data [], JsonOutput = \<lparr>refuses = None, written = []\<rparr>,
               SkipErrors = False, Logger = lg\<rparr>" recs n]
    buildRecords_loop_abort
      [of "\<lparr>ColNames = cols, CsvInput = Data [], JsonOutput = \<lparr>refuses = None, written = []\<rparr>,
               SkipErrors = False, Logger = lg\<rparr>" rd recs n] assms
  by (simp cong: list.case_cong)

text \<open>What the drivers do once the column names \<open>cols\<close> and the data rows are fixed.\<close>

lemma columns_cases:
  assumes g: "getCsvReader inp = Inr rd"
    and c: "(ov \<noteq> [] \<and> cols = ov \<and> rows = pending rd) \<or>
            (ov = [] \<and> (\<exists>l. pending rd = (l, cols, None) # rows))"
  shows "cols \<noteq> []"
    and "(if length ov = 0 then
            (case parseColumnNames rd of
               ((columnNames, err), reader1) \<Rightarrow>
                 (case err of
                    Some e \<Rightarrow> Inl e
                  | None \<Rightarrow> Inr (opts\<lparr>ColNames := columnNames\<rparr>, reader1)))
          else Inr (opts, rd)) =
         Inr (if ov = [] then opts\<lparr>ColNames := cols\<rparr> else opts,
              if ov = [] then rd\<lparr>pending := rows, FieldsPerRecord := int (length cols)\<rparr> else rd)"
    and "(if length ov = 0 then
              (case Read rd of
                 ((firstRow, err), reader1) \<Rightarrow>
                   (case err of
                      Some e \<Rightarrow> (if e \<noteq> EOF then Inl e else Inr (ov, reader1))
                    | None \<Rightarrow> Inr (firstRow, reader1)))
            else Inr (ov, rd\<lparr>FieldsPerRecord := int (length ov)\<rparr>)) =
         Inr (cols, rd\<lparr>pending := rows, FieldsPerRecord := int (length cols)\<rparr>)"
proof -
  have f: "FieldsPerRecord rd = 0" using g by (rule getCsvReader_FieldsPerRecord)
  show "cols \<noteq> []"
  proof (cases "ov = []")
    case True
    then obtain l where "pending rd = (l, cols, None) # rows" using c by auto
    then have "(l, cols, None) \<in> set (pending rd)" by simp
    then show ?thesis by (rule getCsvReader_no_error_has_fields [OF g])
  next
    case False
    then show ?thesis using c by auto
  qed
  show "(if length ov = 0 then
            (case parseColumnNames rd of
               ((columnNames, err), reader1) \<Rightarrow>
                 (case err of
                    Some e \<Rightarrow> Inl e
                  | None \<Rightarrow> Inr (opts\<lparr>ColNames := columnNames\<rparr>, reader1)))
          else Inr (opts, rd)) =
         Inr (if ov = [] then opts\<lparr>ColNames := cols\<rparr> else opts,
              if ov = [] then rd\<lparr>pending := rows, FieldsPerRecord := int (length cols)\<rparr> else rd)"
    using c f by (auto simp: parseColumnNames_def Read_header)
  show "(if length ov = 0 then
              (case Read rd of
                 ((firstRow, err), reader1) \<Rightarrow>
                   (case err of
                      Some e \<Rightarrow> (if e \<noteq> EOF then Inl e else Inr (ov, reader1))
                    | None \<Rightarrow> Inr (firstRow, reader1)))
            else Inr (ov, rd\<lparr>FieldsPerRecord := int (length ov)\<rparr>)) =
         Inr (cols, rd\<lparr>pending := rows, FieldsPerRecord := int (length cols)\<rparr>)"
    using c f by (auto simp: Read_header)
qed

lemma rowError_eq:
  "0 < n \<Longrightarrow> rowError n (l, dst, perr) =
     (case perr of
        Some ce \<Rightarrow> Some (ParseError l ce)
      | None \<Rightarrow> if length dst \<noteq> n then Some (ParseError l ErrFieldCount) else None)"
  by (auto simp: rowError_def Read_def split: option.splits)

lemma Instrument_columns:
  assumes "getCsvReader (CsvInput opts) = Inr rd"
    and "(if length (ColNames opts) = 0 then
            (case parseColumnNames rd of
               ((columnNames, err), reader1) \<Rightarrow>
                 (case err of
                    Some e \<Rightarrow> Inl e
                  | None \<Rightarrow> Inr (opts\<lparr>ColNames := columnNames\<rparr>, reader1)))
          else Inr (opts, rd)) = Inr (opts1, reader1)"
  shows "Instrument opts =
     (case buildRecords (reader1\<lparr>FieldsPerRecord := int (length (ColNames opts1))\<rparr>) opts1 of
        Return ((records, err), opts2) \<Rightarrow>
          (case err of
             Some e \<Rightarrow> Return (Some e, opts2)
           | None \<Rightarrow>
               (case Encode (JsonOutput opts2) records of
                  (res, w) \<Rightarrow> Return (res, opts2\<lparr>JsonOutput := w\<rparr>)))
      | Panic \<Rightarrow> Panic
      | Exit x \<Rightarrow> Exit x)"
  unfolding Instrument_def assms(1) sum.case assms(2) prod.case Let_def ..

lemma Instrument_skip:
  assumes g: "getCsvReader inp = Inr rd"
    and c: "(ov \<noteq> [] \<and> cols = ov \<and> rows = pending rd) \<or>
            (ov = [] \<and> (\<exists>l. pending rd = (l, cols, None) # rows))"
    and w: "refuses out = None"
  shows "Instrument \<lparr>ColNames = ov, CsvInput = inp, JsonOutput = out, SkipErrors = True, Logger = lg\<rparr>
     = Return (None,
         \<lparr>ColNames = cols, CsvInput = inp,
          JsonOutput = out\<lparr>written := written out @
            [JsonArray (map (\<lambda>r. Map.empty(cols [\<mapsto>] fst (snd r)))
                          (filter (\<lambda>r. rowError (length cols) r = None) rows))]\<rparr>,
          SkipErrors = True,
          Logger = lg @ map SkippedParsingError (List.map_filter (rowError (length cols)) rows) @
            (if List.map_filter (rowError (length cols)) rows = [] then []
             else [SkippedLines (length (List.map_filter (rowError (length cols)) rows))])\<rparr>)"
proof -
  let ?opts = "\<lparr>ColNames = ov, CsvInput = inp, JsonOutput = out, SkipErrors = True, Logger = lg\<rparr>"
  let ?opts1 = "\<lparr>ColNames = cols, CsvInput = inp, JsonOutput = out, SkipErrors = True, Logger = lg\<rparr>"
  let ?rd = "rd\<lparr>pending := rows, FieldsPerRecord := int (length cols)\<rparr>"
  have ne: "cols \<noteq> []" using g c by (rule columns_cases(1))
  have res: "(if length (ColNames ?opts) = 0 then
            (case parseColumnNames rd of
               ((columnNames, err), reader1) \<Rightarrow>
                 (case err of
                    Some e \<Rightarrow> Inl e
                  | None \<Rightarrow> Inr (?opts\<lparr>ColNames := columnNames\<rparr>, reader1)))
          else Inr (?opts, rd)) =
         Inr (?opts1, if ov = [] then ?rd else rd)"
    using columns_cases(2) [OF g c, of ?opts] c by auto
  have rd2: "(if ov = [] then ?rd else rd)\<lparr>FieldsPerRecord := int (length cols)\<rparr> = ?rd"
    using c by auto
  have loop: "buildRecords_loop ?rd ?opts1 [] 0 =
      Return (map (\<lambda>r. Map.empty(cols [\<mapsto>] fst (snd r)))
                  (filter (\<lambda>r. rowError (length cols) r = None) rows),
              length (List.map_filter (rowError (length cols)) rows), None,
              ?opts1\<lparr>Logger := lg @ map SkippedParsingError
                        (List.map_filter (rowError (length cols)) rows)\<rparr>)"
    using buildRecords_loop_skip [of ?opts1 ?rd "[]" 0] ne by simp
  have g': "getCsvReader (CsvInput ?opts) = Inr rd" using g by simp
  show ?thesis
    by (subst Instrument_columns [OF g' res])
      (simp add: rd2 buildRecords_def loop Encode_def w)
qed

lemma csv2Json_body_columns:
  assumes g: "getCsvReader inp = Inr rd"
    and c: "(ov \<noteq> [] \<and> cols = ov \<and> rows = pending rd) \<or>
            (ov = [] \<and> (\<exists>l. pending rd = (l, cols, None) # rows))"
  shows "csv2Json_body rd ov sk out stdlog =
     (case csv2Json_loop (rd\<lparr>pending := rows, FieldsPerRecord := int (length cols)\<rparr>)
             cols sk [] 0 stdlog of
        Return (res, allRecords, numRowsWithErrors, lg1) \<Rightarrow>
          (let lg2 = (if sk \<and> 0 < numRowsWithErrors
                      then lg1 @ [SkippedLines numRowsWithErrors] else lg1)
           in
           case res of
             Some e \<Rightarrow> Return (Some e, out, lg2)
           | None \<Rightarrow>
               (case Encode out allRecords of
                  (res', w) \<Rightarrow> Return (res', w, lg2)))
      | Panic \<Rightarrow> Panic
      | Exit x \<Rightarrow> Exit x)"
  unfolding csv2Json_body_def columns_cases(3) [OF g c] sum.case prod.case ..

lemma csv2Json_body_skip:
  assumes g: "getCsvReader inp = Inr rd"
    and c: "(ov \<noteq> [] \<and> cols = ov \<and> rows = pending rd) \<or>
            (ov = [] \<and> (\<exists>l. pending rd = (l, cols, None) # rows))"
    and w: "refuses out = None"
  shows "csv2Json_body rd ov True out stdlog =
     Return (None,
       out\<lparr>written := written out @
            [JsonArray (map (\<lambda>r. Map.empty(cols [\<mapsto>] fst (snd r)))
                          (filter (\<lambda>r. rowError (length cols) r = None) rows))]\<rparr>,
       stdlog @ map SkippedParsingError (List.map_filter (rowError (length cols)) rows) @
            (if List.map_filter (rowError (length cols)) rows = [] then []
             else [SkippedLines (length (List.map_filter (rowError (length cols)) rows))]))"
proof -
  have ne: "cols \<noteq> []" using g c by (rule columns_cases(1))
  show ?thesis
    using ne
    by (subst csv2Json_body_columns [OF g c]) (simp add: csv2Json_loop_skip Encode_def w)
qed

lemma dropWhile_Nil_takeWhile: "dropWhile P xs = [] \<Longrightarrow> takeWhile P xs = xs"
  by (induction xs) (auto split: if_splits)

lemma dropWhile_Cons_not: "dropWhile P xs = y # ys \<Longrightarrow> \<not> P y"
  by (induction xs) (auto split: if_splits)

lemma csv2Json_body_abort:
  assumes g: "getCsvReader inp = Inr rd"
    and c: "(ov \<noteq> [] \<and> cols = ov \<and> rows = pending rd) \<or>
            (ov = [] \<and> (\<exists>l. pending rd = (l, cols, None) # rows))"
    and w: "refuses out = None"
  shows "csv2Json_body rd ov False out stdlog =
     (case dropWhile (\<lambda>r. rowError (length cols) r = None) rows of
        [] \<Rightarrow> Return (None,
                 out\<lparr>written := written out @
                   [JsonArray (map (\<lambda>r. Map.empty(cols [\<mapsto>] fst (snd r))) rows)]\<rparr>, stdlog)
      | r # rest \<Rightarrow> Return (rowError (length cols) r, out, stdlog))"
proof -
  have ne: "cols \<noteq> []" using g c by (rule columns_cases(1))
  let ?P = "\<lambda>r. rowError (length cols) r = None"
  have la: "csv2Json_loop (rd\<lparr>pending := rows, FieldsPerRecord := int (length cols)\<rparr>)
               cols False [] 0 stdlog =
     Return ((case dropWhile ?P rows of [] \<Rightarrow> None | r # rest \<Rightarrow> rowError (length cols) r),
             map (\<lambda>r. Map.empty(cols [\<mapsto>] fst (snd r))) (takeWhile ?P rows), 0, stdlog)"
    using ne by (subst csv2Json_loop_abort) simp_all
  show ?thesis
  proof (cases "dropWhile ?P rows")
    case Nil
    have t: "takeWhile ?P rows = rows" using Nil by (rule dropWhile_Nil_takeWhile)
    show ?thesis
      unfolding csv2Json_body_columns [OF g c] la Nil t
      by (simp add: Encode_def w)
  next
    case (Cons r rest)
    then have "rowError (length cols) r \<noteq> None" by (rule dropWhile_Cons_not)
    then obtain e where e: "rowError (length cols) r = Some e" by auto
    show ?thesis
      unfolding csv2Json_body_columns [OF g c] la Cons
      by (simp add: e)
  qed
qed

lemma Instrument_abort:
  assumes g: "getCsvReader inp = Inr rd"
    and c: "(ov \<noteq> [] \<and> cols = ov \<and> rows = pending rd) \<or>
            (ov = [] \<and> (\<exists>l. pending rd = (l, cols, None) # rows))"
    and w: "refuses out = None"
  shows "Instrument \<lparr>ColNames = ov, CsvInput = inp, JsonOutput = out, SkipErrors = False, Logger = lg\<rparr>
     = Return (None,
         \<lparr>ColNames = cols, CsvInput = inp,
          JsonOutput = out\<lparr>written := written out @
            [JsonArray (map (\<lambda>r. Map.empty(cols [\<mapsto>] fst (snd r)))
                          (takeWhile (\<lambda>r. rowError (length cols) r = None) rows))]\<rparr>,
          SkipErrors = False, Logger = lg\<rparr>)"
proof -
  let ?opts = "\<lparr>ColNames = ov, CsvInput = inp, JsonOutput = out, SkipErrors = False, Logger = lg\<rparr>"
  let ?opts1 = "\<lparr>ColNames = cols, CsvInput = inp, JsonOutput = out, SkipErrors = False, Logger = lg\<rparr>"
  let ?rd = "rd\<lparr>pending := rows, FieldsPerRecord := int (length cols)\<rparr>"
  have ne: "cols \<noteq> []" using g c by (rule columns_cases(1))
  have res: "(if length (ColNames ?opts) = 0 then
            (case parseColumnNames rd of
               ((columnNames, err), reader1) \<Rightarrow>
                 (case err of
                    Some e \<Rightarrow> Inl e
                  | None \<Rightarrow> Inr (?opts\<lparr>ColNames := columnNames\<rparr>, reader1)))
          else Inr (?opts, rd)) =
         Inr (?opts1, if ov = [] then ?rd else rd)"
    using columns_cases(2) [OF g c, of ?opts] c by auto
  have rd2: "(if ov = [] then ?rd else rd)\<lparr>FieldsPerRecord := int (length cols)\<rparr> = ?rd"
    using c by auto
  have loop: "buildRecords_loop ?rd ?opts1 [] 0 =
      Return (map (\<lambda>r. Map.empty(cols [\<mapsto>] fst (snd r)))
                  (takeWhile (\<lambda>r. rowError (length cols) r = None) rows),
              0,
              (case dropWhile (\<lambda>r. rowError (length cols) r = None) rows of
                 [] \<Rightarrow> None | r # rest \<Rightarrow> rowError (length cols) r),
              ?opts1)"
    using buildRecords_loop_abort [of ?opts1 ?rd "[]" 0] ne by (simp cong: list.case_cong)
  have g': "getCsvReader (CsvInput ?opts) = Inr rd" using g by simp
  show ?thesis
    by (subst Instrument_columns [OF g' res])
      (simp add: rd2 buildRecords_def loop Encode_def w)
qed

section \<open>Header errors and skipped rows\<close>

lemma map_filter_all_None: "\<forall>x\<in>set xs. f x = None \<Longrightarrow> List.map_filter f xs = []"
  by (induction xs) simp_all


lemma Instrument_header_error:
  assumes g: "getCsvReader inp = Inr rd" and p: "pending rd = (l, dst, Some ce) # rest"
  shows "Instrument \<lparr>ColNames = [], CsvInput = inp, JsonOutput = out, SkipErrors = sk, Logger = lg\<rparr>
     = Return (Some (ParseError l ce),
         \<lparr>ColNames = [], CsvInput = inp, JsonOutput = out, SkipErrors = sk, Logger = lg\<rparr>)"
proof -
  have f: "FieldsPerRecord rd = 0" using g by (rule getCsvReader_FieldsPerRecord)
  show ?thesis
    by (simp add: Instrument_def g parseColumnNames_def Read_header [OF p f])
qed

lemma csv2Json_body_header_error:
  assumes g: "getCsvReader inp = Inr rd" and p: "pending rd = (l, dst, Some ce) # rest"
  shows "csv2Json_body rd [] sk out stdlog = Return (Some (ParseError l ce), out, stdlog)"
proof -
  have f: "FieldsPerRecord rd = 0" using g by (rule getCsvReader_FieldsPerRecord)
  show ?thesis
    by (simp add: csv2Json_body_def Read_header [OF p f])
qed

text \<open>
  Claim C4. When the first record that the reader yields has a quoting error and no
  column override is given, \<open>Instrument\<close> returns that error with either setting of
  \<open>SkipErrors\<close>, and writes and logs nothing; so do \<open>csv2Json\<close> of package
  \<open>converter\<close> and of the \<open>package main\<close> programs.
\<close>

theorem header_error_is_never_skipped:
  assumes "getCsvReader inp = Inr rd" and "pending rd = (l, dst, Some ce) # rest"
  shows "Instrument \<lparr>ColNames = [], CsvInput = inp, JsonOutput = out, SkipErrors = sk, Logger = lg\<rparr>
           = Return (Some (ParseError l ce),
               \<lparr>ColNames = [], CsvInput = inp, JsonOutput = out, SkipErrors = sk, Logger = lg\<rparr>) \<and>
         csv2Json \<lparr>ColNames = [], CsvInput = inp, JsonOutput = out, SkipErrors = sk, Logger = lg\<rparr>
             stdlog
           = Return (Some (ParseError l ce), out, stdlog) \<and>
         csv2Json_main
             \<lparr>co_colNames = [], co_csvInput = inp, co_jsonOutput = out, co_skipErrors = sk\<rparr> stdlog
           = Return (Some (ParseError l ce), out, stdlog)"
  using assms
  by (simp add: Instrument_header_error csv2Json_def csv2Json_main_def getCsvReader_main_eq
      csv2Json_body_header_error)

theorem header_error_is_never_skipped_witness:
  "Instrument
     \<lparr>ColNames = [], CsvInput = Data (''a,'' @ [quote] @ ''b,c\<newline>1,2,3\<newline>z,y,x\<newline>''),
      JsonOutput = \<lparr>refuses = None, written = []\<rparr>, SkipErrors = True, Logger = []\<rparr>
     = Return (Some (ParseError 1 ErrQuote),
         \<lparr>ColNames = [], CsvInput = Data (''a,'' @ [quote] @ ''b,c\<newline>1,2,3\<newline>z,y,x\<newline>''),
          JsonOutput = \<lparr>refuses = None, written = []\<rparr>, SkipErrors = True, Logger = []\<rparr>)"
proof -
  have g: "getCsvReader (Data (''a,'' @ [quote] @ ''b,c\<newline>1,2,3\<newline>z,y,x\<newline>'')) =
             Inr \<lparr>FieldsPerRecord = 0, pending = [(1, [''a''], Some ErrQuote)]\<rparr>"
    by (simp add: getCsvReader_pending csv_eval)
  show ?thesis
    using header_error_is_never_skipped
      [OF g, of 1 "[''a'']" ErrQuote "[]" "\<lparr>refuses = None, written = []\<rparr>" True "[]" "[]"]
    by simp
qed

text \<open>
  Claim C5. Let \<open>SkipErrors\<close> be set, let the column names \<open>cols\<close> be a non-empty
  override or the header record, and \<open>rows\<close> the records after them; let the writer
  accept the document. Then \<open>Instrument\<close> and \<open>csv2Json\<close> return no error; they write
  one array, the records of the rows for which \<open>Read\<close> reports no error, in input
  order; and they log the errors of the other rows, in input order, followed by one
  summary with the number of those rows when there is at least one.
\<close>

theorem skip_errors_drops_and_reports_rows:
  assumes g: "getCsvReader inp = Inr rd"
    and c: "(ov \<noteq> [] \<and> cols = ov \<and> rows = pending rd) \<or>
            (ov = [] \<and> (\<exists>l. pending rd = (l, cols, None) # rows))"
    and w: "refuses out = None"
  shows "Instrument \<lparr>ColNames = ov, CsvInput = inp, JsonOutput = out, SkipErrors = True, Logger = lg\<rparr>
     = Return (None,
         \<lparr>ColNames = cols, CsvInput = inp,
          JsonOutput = out\<lparr>written := written out @
            [JsonArray (map (\<lambda>r. Map.empty(cols [\<mapsto>] fst (snd r)))
                          (filter (\<lambda>r. rowError (length cols) r = None) rows))]\<rparr>,
          SkipErrors = True,
          Logger = lg @ map SkippedParsingError (List.map_filter (rowError (length cols)) rows) @
            (if List.map_filter (rowError (length cols)) rows = [] then []
             else [SkippedLines (length (List.map_filter (rowError (length cols)) rows))])\<rparr>) \<and>
    csv2Json \<lparr>ColNames = ov, CsvInput = inp, JsonOutput = out, SkipErrors = True, Logger = lg\<rparr>
        stdlog
     = Return (None,
         out\<lparr>written := written out @
            [JsonArray (map (\<lambda>r. Map.empty(cols [\<mapsto>] fst (snd r)))
                          (filter (\<lambda>r. rowError (length cols) r = None) rows))]\<rparr>,
         stdlog @ map SkippedParsingError (List.map_filter (rowError (length cols)) rows) @
            (if List.map_filter (rowError (length cols)) rows = [] then []
             else [SkippedLines (length (List.map_filter (rowError (length cols)) rows))]))"
  using Instrument_skip [OF g c w] csv2Json_body_skip [OF g c w]
  by (simp add: csv2Json_def g)

theorem skip_errors_drops_and_reports_rows_witness:
  "Instrument
     \<lparr>ColNames = [], CsvInput = Data ''a,b,c\<newline>1,2,3\<newline>bad,line\<newline>z,y,x\<newline>'',
      JsonOutput = \<lparr>refuses = None, written = []\<rparr>, SkipErrors = True, Logger = []\<rparr>
     = Return (None,
         \<lparr>ColNames = [''a'', ''b'', ''c''],
          CsvInput = Data ''a,b,c\<newline>1,2,3\<newline>bad,line\<newline>z,y,x\<newline>'',
          JsonOutput = \<lparr>refuses = None, written =
            [JsonArray [[''a'' \<mapsto> ''1'', ''b'' \<mapsto> ''2'', ''c'' \<mapsto> ''3''],
                        [''a'' \<mapsto> ''z'', ''b'' \<mapsto> ''y'', ''c'' \<mapsto> ''x'']]]\<rparr>,
          SkipErrors = True,
          Logger = [SkippedParsingError (ParseError 3 ErrFieldCount), SkippedLines 1]\<rparr>)"
proof -
  have g: "getCsvReader (Data ''a,b,c\<newline>1,2,3\<newline>bad,line\<newline>z,y,x\<newline>'') =
             Inr \<lparr>FieldsPerRecord = 0, pending =
                   [(1, [''a'', ''b'', ''c''], None), (2, [''1'', ''2'', ''3''], None),
                    (3, [''bad'', ''line''], None), (4, [''z'', ''y'', ''x''], None)]\<rparr>"
    by (simp add: getCsvReader_pending csv_eval)
  have c: "([] \<noteq> [] \<and> [''a'', ''b'', ''c''] = [] \<and>
             [(2, [''1'', ''2'', ''3''], None), (3, [''bad'', ''line''], None),
              (4, [''z'', ''y'', ''x''], None)] =
             pending \<lparr>FieldsPerRecord = 0, pending =
                   [(1, [''a'', ''b'', ''c''], None), (2, [''1'', ''2'', ''3''], None),
                    (3, [''bad'', ''line''], None), (4, [''z'', ''y'', ''x''], None)]\<rparr>) \<or>
           ([] = [] \<and> (\<exists>l. pending \<lparr>FieldsPerRecord = 0, pending =
                   [(1, [''a'', ''b'', ''c''], None), (2, [''1'', ''2'', ''3''], None),
                    (3, [''bad'', ''line''], None), (4, [''z'', ''y'', ''x''], None)]\<rparr> =
                (l, [''a'', ''b'', ''c''], None) #
                [(2, [''1'', ''2'', ''3''], None), (3, [''bad'', ''line''], None),
                 (4, [''z'', ''y'', ''x''], None)]))"
    by simp
  have w: "refuses \<lparr>refuses = None, written = []\<rparr> = None" by simp
  show ?thesis
    using skip_errors_drops_and_reports_rows [OF g c w, of "[]" "[]"]
    by (simp add: rowError_eq)
qed

section \<open>Empty and blank input\<close>











section \<open>Row errors without \<open>SkipErrors\<close>, and the column override\<close>


text \<open>
  Claim C1, at the specification's example with \<open>SkipErrors\<close> off: the third line has
  two fields where three are required. \<open>Instrument\<close> returns no error and writes the
  array of the one row read before it; \<open>csv2Json\<close>, its predecessor in the same file,
  returns the error of line 3 and writes nothing.
\<close>

theorem Instrument_loses_row_error:
  "Instrument
     \<lparr>ColNames = [], CsvInput = Data ''a,b,c\<newline>1,2,3\<newline>bad,line\<newline>z,y,x\<newline>'',
      JsonOutput = \<lparr>refuses = None, written = []\<rparr>, SkipErrors = False, Logger = []\<rparr>
     = Return (None,
         \<lparr>ColNames = [''a'', ''b'', ''c''],
          CsvInput = Data ''a,b,c\<newline>1,2,3\<newline>bad,line\<newline>z,y,x\<newline>'',
          JsonOutput = \<lparr>refuses = None, written =
            [JsonArray [[''a'' \<mapsto> ''1'', ''b'' \<mapsto> ''2'', ''c'' \<mapsto> ''3'']]]\<rparr>,
          SkipErrors = False, Logger = []\<rparr>) \<and>
   csv2Json
     \<lparr>ColNames = [], CsvInput = Data ''a,b,c\<newline>1,2,3\<newline>bad,line\<newline>z,y,x\<newline>'',
      JsonOutput = \<lparr>refuses = None, written = []\<rparr>, SkipErrors = False, Logger = []\<rparr> []
     = Return (Some (ParseError 3 ErrFieldCount), \<lparr>refuses = None, written = []\<rparr>, [])"
proof -
  let ?rows = "[(2, [''1'', ''2'', ''3''], None), (3, [''bad'', ''line''], None),
                (4, [''z'', ''y'', ''x''], None)]"
  let ?rd = "\<lparr>FieldsPerRecord = 0, pending = (1, [''a'', ''b'', ''c''], None) # ?rows\<rparr>"
  have g: "getCsvReader (Data ''a,b,c\<newline>1,2,3\<newline>bad,line\<newline>z,y,x\<newline>'') = Inr ?rd"
    by (simp add: getCsvReader_pending csv_eval)
  have c: "([] \<noteq> [] \<and> [''a'', ''b'', ''c''] = [] \<and> ?rows = pending ?rd) \<or>
           ([] = [] \<and> (\<exists>l. pending ?rd = (l, [''a'', ''b'', ''c''], None) # ?rows))"
    by simp
  have w: "refuses \<lparr>refuses = None, written = []\<rparr> = None" by simp
  show ?thesis
    using Instrument_abort [OF g c w, of "[]"] csv2Json_body_abort [OF g c w, of "[]"]
    by (simp add: csv2Json_def g rowError_eq)
qed



end
